theory Spec2Isabelle
  imports Main
begin

section \<open>Strings, decimal numerals and paths\<close>

text \<open>
  The program is \<^verbatim>\<open>src/automation/file_organizer.py\<close>. Python strings are modelled as
  \<open>string\<close>; a \<^verbatim>\<open>pathlib.Path\<close> is the list of its components below the filesystem root,
  so that \<^verbatim>\<open>p / name\<close> appends one component, \<^verbatim>\<open>p.parent\<close> drops the last one and
  \<^verbatim>\<open>p.name\<close> is the last one.
\<close>

type_synonym path = "string list"

definition joinpath :: "path \<Rightarrow> string \<Rightarrow> path" where
  "joinpath p c = p @ [c]"

definition parent :: "path \<Rightarrow> path" where
  "parent p = butlast p"

definition name :: "path \<Rightarrow> string" where
  "name p = (if p = [] then [] else last p)"

text \<open>\<^verbatim>\<open>str(path)\<close>, as the log messages print the source directory.\<close>

definition str_path :: "path \<Rightarrow> string" where
  "str_path p = (if p = [] then ''/'' else concat (map (\<lambda>c. CHR ''/'' # c) p))"

text \<open>\<^verbatim>\<open>str(n)\<close> for a non-negative integer: its decimal digits.\<close>

definition digit :: "nat \<Rightarrow> char" where
  "digit k = ''0123456789'' ! k"

fun str_of_nat :: "nat \<Rightarrow> string" where
  "str_of_nat n = (if n < 10 then [digit n] else str_of_nat (n div 10) @ [digit (n mod 10)])"

text \<open>
  \<^verbatim>\<open>str.rfind\<close>: the index of the last occurrence of a character, or \<open>-1\<close>.
\<close>

fun rfind :: "string \<Rightarrow> char \<Rightarrow> int" where
  "rfind [] c = -1"
| "rfind (x # xs) c =
     (let r = rfind xs c in if 0 \<le> r then r + 1 else if x = c then 0 else -1)"

text \<open>
  \<^verbatim>\<open>PurePath.suffix\<close> and \<^verbatim>\<open>PurePath.stem\<close> of a file name, as pathlib defines them up
  to Python 3.13: with \<open>i = name.rfind('.')\<close>, the name is split at \<open>i\<close> when
  \<open>0 < i < len(name) - 1\<close>, and has no suffix otherwise (so \<^verbatim>\<open>.gitignore\<close> and
  \<^verbatim>\<open>notes.\<close> have the empty suffix).
\<close>

definition suffix :: "string \<Rightarrow> string" where
  "suffix nm = (let i = rfind nm (CHR ''.'') in
     if 0 < i \<and> i < int (length nm) - 1 then drop (nat i) nm else [])"

definition stem :: "string \<Rightarrow> string" where
  "stem nm = (let i = rfind nm (CHR ''.'') in
     if 0 < i \<and> i < int (length nm) - 1 then take (nat i) nm else nm)"

text \<open>
  \<^verbatim>\<open>str.lower\<close> on ASCII letters; every other character is left as it is (the table of
  extensions is ASCII, and a byte string has no other cased characters).
\<close>

definition lower_char :: "char \<Rightarrow> char" where
  "lower_char c =
     (case map_of (zip ''ABCDEFGHIJKLMNOPQRSTUVWXYZ'' ''abcdefghijklmnopqrstuvwxyz'') c of
        Some d \<Rightarrow> d
      | None \<Rightarrow> c)"

definition lower :: "string \<Rightarrow> string" where
  "lower s = map lower_char s"

section \<open>The organizer and its classifier\<close>

text \<open>
  \<^verbatim>\<open>FileOrganizer.__init__\<close>: the source directory and the fixed category table. A Python
  dict iterates in insertion order, so the table is an association list.
\<close>

record organizer =
  source_dir :: path
  file_types :: "(string \<times> string list) list"

definition FileOrganizer :: "path \<Rightarrow> organizer" where
  "FileOrganizer d = \<lparr>
     source_dir = d,
     file_types = [
       (''Images'', [''.jpg'', ''.jpeg'', ''.png'', ''.gif'', ''.bmp'', ''.svg'', ''.webp'', ''.tiff'']),
       (''Documents'', [''.pdf'', ''.doc'', ''.docx'', ''.txt'', ''.rtf'', ''.odt'', ''.pages'']),
       (''Spreadsheets'', [''.xls'', ''.xlsx'', ''.csv'', ''.ods'', ''.numbers'']),
       (''Presentations'', [''.ppt'', ''.pptx'', ''.odp'', ''.key'']),
       (''Videos'', [''.mp4'', ''.avi'', ''.mkv'', ''.mov'', ''.wmv'', ''.flv'', ''.webm'', ''.m4v'']),
       (''Audio'', [''.mp3'', ''.wav'', ''.flac'', ''.aac'', ''.ogg'', ''.wma'', ''.m4a'']),
       (''Archives'', [''.zip'', ''.rar'', ''.7z'', ''.tar'', ''.gz'', ''.bz2'', ''.xz'']),
       (''Code'', [''.py'', ''.js'', ''.html'', ''.css'', ''.java'', ''.cpp'', ''.c'', ''.php'', ''.rb'', ''.go'']),
       (''Executables'', [''.exe'', ''.msi'', ''.dmg'', ''.pkg'', ''.deb'', ''.rpm'', ''.app''])
     ] \<rparr>"

text \<open>
  The loop of \<^verbatim>\<open>get_file_category\<close>: the first category whose list holds the extension,
  \<^verbatim>\<open>'Others'\<close> when the loop runs out.
\<close>

fun category_of :: "(string \<times> string list) list \<Rightarrow> string \<Rightarrow> string" where
  "category_of [] extension = ''Others''"
| "category_of ((category, extensions) # rest) extension =
     (if extension \<in> set extensions then category else category_of rest extension)"

definition get_file_category :: "organizer \<Rightarrow> path \<Rightarrow> string" where
  "get_file_category self file_path =
     (let extension = lower (suffix (name file_path))
      in category_of (file_types self) extension)"

section \<open>Decimal numerals are injective\<close>

declare str_of_nat.simps [simp del]

lemma digit_inj: "a < 10 \<Longrightarrow> b < 10 \<Longrightarrow> digit a = digit b \<Longrightarrow> a = b"
  using nth_eq_iff_index_eq [of "''0123456789''" a b] by (simp add: digit_def)

lemma str_of_nat_nonempty: "str_of_nat n \<noteq> []"
  by (subst str_of_nat.simps) simp

lemma str_of_nat_inj: "str_of_nat n = str_of_nat m \<Longrightarrow> n = m"
proof (induction n arbitrary: m rule: str_of_nat.induct)
  case (1 n)
  show ?case
  proof (cases "n < 10")
    case True
    show ?thesis
    proof (cases "m < 10")
      case m: True
      from "1.prems" True m have "digit n = digit m"
        by (simp add: str_of_nat.simps [of n] str_of_nat.simps [of m])
      with True m show ?thesis by (simp add: digit_inj)
    next
      case m: False
      from "1.prems" True m have "[digit n] = str_of_nat (m div 10) @ [digit (m mod 10)]"
        by (simp add: str_of_nat.simps [of n] str_of_nat.simps [of m])
      then show ?thesis using str_of_nat_nonempty [of "m div 10"] by simp
    qed
  next
    case False
    show ?thesis
    proof (cases "m < 10")
      case m: True
      from "1.prems" False m have "str_of_nat (n div 10) @ [digit (n mod 10)] = [digit m]"
        by (simp add: str_of_nat.simps [of n] str_of_nat.simps [of m])
      then show ?thesis using str_of_nat_nonempty [of "n div 10"] by simp
    next
      case m: False
      from "1.prems" False m
      have "str_of_nat (n div 10) @ [digit (n mod 10)] = str_of_nat (m div 10) @ [digit (m mod 10)]"
        by (simp add: str_of_nat.simps [of n] str_of_nat.simps [of m])
      then have a: "str_of_nat (n div 10) = str_of_nat (m div 10)"
        and b: "digit (n mod 10) = digit (m mod 10)" by simp_all
      from "1.IH" [OF False a] have "n div 10 = m div 10" .
      moreover from b have "n mod 10 = m mod 10" by (intro digit_inj) simp_all
      ultimately show ?thesis by (metis div_mult_mod_eq)
    qed
  qed
qed

section \<open>The filesystem\<close>

text \<open>
  The filesystem is the list of its entries, each a path with its node: a regular file
  (with its \<^verbatim>\<open>st_ctime\<close> in seconds and its content) or a directory. The order of the
  list is the order in which \<^verbatim>\<open>iterdir\<close> lists entries. Symbolic links, permissions
  and the timestamps of directories are not modelled.
\<close>

datatype node = File (st_ctime: int) (content: string) | Dir

type_synonym filesystem = "(path \<times> node) list"

text \<open>\<^verbatim>\<open>Path.exists\<close>, \<^verbatim>\<open>Path.is_file\<close>, \<^verbatim>\<open>Path.is_dir\<close>.\<close>

definition exists :: "filesystem \<Rightarrow> path \<Rightarrow> bool" where
  "exists fs p = (map_of fs p \<noteq> None)"

definition is_file :: "filesystem \<Rightarrow> path \<Rightarrow> bool" where
  "is_file fs p = (case map_of fs p of Some (File t c) \<Rightarrow> True | _ \<Rightarrow> False)"

definition is_dir :: "filesystem \<Rightarrow> path \<Rightarrow> bool" where
  "is_dir fs p = (map_of fs p = Some Dir)"

text \<open>The entries of a directory: the paths one component below it.\<close>

definition entries :: "filesystem \<Rightarrow> path \<Rightarrow> path list" where
  "entries fs d = [p. (p, n) \<leftarrow> fs, p \<noteq> [] \<and> parent p = d]"

section \<open>The destination resolver\<close>

text \<open>
  Lines 84-85 (and 123-124): the candidate built in the loop body,
  \<^verbatim>\<open>original_destination.parent / f"{stem}_{counter}{suffix}"\<close>.
\<close>

definition numbered :: "path \<Rightarrow> nat \<Rightarrow> path" where
  "numbered original_destination counter =
     joinpath (parent original_destination)
       (stem (name original_destination) @ ''_'' @ str_of_nat counter
          @ suffix (name original_destination))"

lemma numbered_inj: "numbered d n = numbered d m \<Longrightarrow> n = m"
  by (simp add: numbered_def joinpath_def str_of_nat_inj)

text \<open>
  The measure of the loop: how many entries of the filesystem are candidates not yet
  tried. Candidates with different counters are different paths, so each iteration
  that finds its candidate taken uses one of them up.
\<close>

definition pending :: "filesystem \<Rightarrow> path \<Rightarrow> nat \<Rightarrow> nat" where
  "pending fs d c = length (filter (\<lambda>p. \<exists>n\<ge>c. p = numbered d n) (map fst fs))"

lemma exists_iff: "exists fs p \<longleftrightarrow> p \<in> set (map fst fs)"
  by (simp add: exists_def map_of_eq_None_iff)

lemma length_filter_split:
  "(\<And>x. P x \<longleftrightarrow> Q x \<or> R x) \<Longrightarrow> (\<And>x. \<not> (Q x \<and> R x))
    \<Longrightarrow> length (filter P xs) = length (filter Q xs) + length (filter R xs)"
  by (induction xs) auto

lemma pending_Suc:
  "pending fs d c = pending fs d (Suc c) + length (filter (\<lambda>p. p = numbered d c) (map fst fs))"
  unfolding pending_def
proof (rule length_filter_split)
  fix x
  show "(\<exists>n\<ge>c. x = numbered d n) \<longleftrightarrow> (\<exists>n\<ge>Suc c. x = numbered d n) \<or> x = numbered d c"
    by (metis Suc_leI le_SucE le_refl Suc_leD order_le_less)
  show "\<not> ((\<exists>n\<ge>Suc c. x = numbered d n) \<and> x = numbered d c)"
    using numbered_inj by fastforce
qed

lemma length_filter_eq_pos: "q \<in> set xs \<Longrightarrow> 0 < length (filter (\<lambda>p. p = q) xs)"
  by (induction xs) auto

lemma pending_step: "exists fs (numbered d c) \<Longrightarrow> pending fs d (Suc c) < pending fs d c"
  using pending_Suc [of fs d c] length_filter_eq_pos [of "numbered d c" "map fst fs"]
  by (simp add: exists_iff)

text \<open>
  Lines 83-86 (and 122-125): \<^verbatim>\<open>while destination.exists(): ...; counter += 1\<close>. The
  function returns the loop's variables at exit, the destination and the counter.
\<close>

function while_exists :: "filesystem \<Rightarrow> path \<Rightarrow> path \<Rightarrow> nat \<Rightarrow> path \<times> nat" where
  "while_exists fs original_destination destination counter =
     (if exists fs destination
      then while_exists fs original_destination
             (numbered original_destination counter) (counter + 1)
      else (destination, counter))"
  by pat_completeness auto
termination
proof (relation "measure (\<lambda>(fs, orig, dest, c). pending fs orig c + (if exists fs dest then 1 else 0))")
  show "wf (measure (\<lambda>(fs, orig, dest, c). pending fs orig c + (if exists fs dest then 1 else 0)))"
    by simp
next
  fix fs :: filesystem and original_destination destination :: path and counter :: nat
  assume "exists fs destination"
  then show "((fs, original_destination, numbered original_destination counter, counter + 1),
          (fs, original_destination, destination, counter))
        \<in> measure (\<lambda>(fs, orig, dest, c). pending fs orig c + (if exists fs dest then 1 else 0))"
    using pending_step [of fs original_destination counter]
      pending_Suc [of fs original_destination counter]
    by auto
qed

declare while_exists.simps [simp del]

text \<open>
  Lines 81-86: \<^verbatim>\<open>counter = 1; original_destination = destination\<close>, then the loop.
\<close>

definition resolve_destination :: "filesystem \<Rightarrow> path \<Rightarrow> path" where
  "resolve_destination fs destination = fst (while_exists fs destination destination 1)"

section \<open>Filesystem operations and their errors\<close>

text \<open>
  The exceptions the model raises: the \<^verbatim>\<open>OSError\<close> subclasses of a failed system call,
  \<^verbatim>\<open>shutil.Error\<close>, and an \<^verbatim>\<open>OSError\<close> with a given message for a failure the
  environment injects (permission denied, a full disk, a cross-device move that fails).
\<close>

datatype error =
    FileExistsError path
  | FileNotFoundError path
  | NotADirectoryError path
  | ShutilError path
  | OSError string

definition quoted :: "string \<Rightarrow> string" where
  "quoted s = [CHR 0x27] @ s @ [CHR 0x27]"

text \<open>\<^verbatim>\<open>str(e)\<close>, as the error log lines print it.\<close>

fun str_error :: "error \<Rightarrow> string" where
  "str_error (FileExistsError p) = ''[Errno 17] File exists: '' @ quoted (str_path p)"
| "str_error (FileNotFoundError p) = ''[Errno 2] No such file or directory: '' @ quoted (str_path p)"
| "str_error (NotADirectoryError p) = ''[Errno 20] Not a directory: '' @ quoted (str_path p)"
| "str_error (ShutilError p) = ''Destination path '' @ quoted (str_path p) @ '' already exists''"
| "str_error (OSError detail) = detail"

text \<open>
  What the program reads from its environment: which moves and which directory removals
  fail (with the error's message), and the platform's conversion of a timestamp to local
  calendar time, \<^verbatim>\<open>datetime.fromtimestamp\<close>, of which the program uses the year and the
  month.
\<close>

record datetime =
  year :: nat
  month :: nat

record env =
  move_fault :: "path \<Rightarrow> path \<Rightarrow> string option"
  rmdir_fault :: "path \<Rightarrow> string option"
  fromtimestamp :: "int \<Rightarrow> datetime"

text \<open>
  \<^verbatim>\<open>Path.iterdir\<close>: the entries of a directory, listed when the loop starts (pathlib
  reads the whole listing before it yields the first entry).
\<close>

definition iterdir :: "filesystem \<Rightarrow> path \<Rightarrow> error + path list" where
  "iterdir fs d =
     (case map_of fs d of
        None \<Rightarrow> Inl (FileNotFoundError d)
      | Some (File t c) \<Rightarrow> Inl (NotADirectoryError d)
      | Some Dir \<Rightarrow> Inr (entries fs d))"

text \<open>
  \<^verbatim>\<open>Path.mkdir(exist_ok=True)\<close>: nothing to do when the directory exists; an error when
  the path is taken by a file, or when the parent is missing or is not a directory.
\<close>

definition mkdir_exist_ok :: "filesystem \<Rightarrow> path \<Rightarrow> error + filesystem" where
  "mkdir_exist_ok fs p =
     (case map_of fs p of
        Some Dir \<Rightarrow> Inr fs
      | Some (File t c) \<Rightarrow> Inl (FileExistsError p)
      | None \<Rightarrow>
          (case map_of fs (parent p) of
             Some Dir \<Rightarrow> Inr (fs @ [(p, Dir)])
           | Some (File t c) \<Rightarrow> Inl (NotADirectoryError p)
           | None \<Rightarrow> Inl (FileNotFoundError p)))"

text \<open>
  \<^verbatim>\<open>Path.rmdir\<close>: removes an empty directory.
\<close>

definition rmdir :: "env \<Rightarrow> filesystem \<Rightarrow> path \<Rightarrow> error + filesystem" where
  "rmdir env fs p =
     (case rmdir_fault env p of
        Some detail \<Rightarrow> Inl (OSError detail)
      | None \<Rightarrow>
          (case map_of fs p of
             None \<Rightarrow> Inl (FileNotFoundError p)
           | Some (File t c) \<Rightarrow> Inl (NotADirectoryError p)
           | Some Dir \<Rightarrow>
               if entries fs p \<noteq> []
               then Inl (OSError (''[Errno 39] Directory not empty: '' @ quoted (str_path p)))
               else Inr (filter (\<lambda>(q, n). q \<noteq> p) fs)))"

text \<open>
  \<^verbatim>\<open>shutil.move(src, dst)\<close> for a regular file \<open>src\<close> (the program moves nothing else:
  both calls are guarded by \<^verbatim>\<open>is_file\<close>). As in shutil: when \<open>dst\<close> is a directory the
  file goes into it under its own name, and that is an error when the name is taken
  there; otherwise the file is renamed to \<open>dst\<close>, \<^bold>\<open>replacing\<close> a file that is there (POSIX
  \<^verbatim>\<open>rename\<close>). The move is atomic: it fails and changes nothing, or succeeds. The file
  keeps its timestamp.
\<close>

definition move :: "env \<Rightarrow> filesystem \<Rightarrow> path \<Rightarrow> path \<Rightarrow> error + filesystem" where
  "move env fs src dst =
     (case move_fault env src dst of
        Some detail \<Rightarrow> Inl (OSError detail)
      | None \<Rightarrow>
          (case map_of fs src of
             None \<Rightarrow> Inl (FileNotFoundError src)
           | Some Dir \<Rightarrow> Inl (OSError ''moving a directory is not modelled'')
           | Some (File t c) \<Rightarrow>
               (let real_dst = (if is_dir fs dst then joinpath dst (name src) else dst) in
                if is_dir fs dst \<and> exists fs real_dst then Inl (ShutilError real_dst)
                else if \<not> is_dir fs (parent real_dst) then Inl (FileNotFoundError real_dst)
                else Inr (filter (\<lambda>(q, n). q \<noteq> src \<and> q \<noteq> real_dst) fs
                          @ [(real_dst, File t c)]))))"

section \<open>The state of a run: filesystem and log\<close>

datatype level = INFO | ERROR

record state =
  filesys :: filesystem
  log :: "(level \<times> string) list"

definition logging_info :: "string \<Rightarrow> state \<Rightarrow> state" where
  "logging_info msg s = s\<lparr>log := log s @ [(INFO, msg)]\<rparr>"

definition logging_error :: "string \<Rightarrow> state \<Rightarrow> state" where
  "logging_error msg s = s\<lparr>log := log s @ [(ERROR, msg)]\<rparr>"

section \<open>The organize passes\<close>

text \<open>
  A method that can raise returns \<open>Inl (e, s)\<close>, the exception with the state it leaves
  behind, or \<open>Inr\<close> with its result.
\<close>

text \<open>The loop of \<^verbatim>\<open>create_organized_structure\<close> over the categories (lines 60-61).\<close>

fun mkdirs :: "filesystem \<Rightarrow> path list \<Rightarrow> (error \<times> filesystem) + filesystem" where
  "mkdirs fs [] = Inr fs"
| "mkdirs fs (p # ps) =
     (case mkdir_exist_ok fs p of
        Inl e \<Rightarrow> Inl (e, fs)
      | Inr fs' \<Rightarrow> mkdirs fs' ps)"

definition create_organized_structure ::
  "organizer \<Rightarrow> filesystem \<Rightarrow> (error \<times> filesystem) + (path \<times> filesystem)" where
  "create_organized_structure self fs0 =
     (let organized_dir = joinpath (source_dir self) ''Organized'' in
      case mkdir_exist_ok fs0 organized_dir of
        Inl e \<Rightarrow> Inl (e, fs0)
      | Inr fs1 \<Rightarrow>
          (case mkdirs fs1 (map (\<lambda>(category, extensions). joinpath organized_dir category)
                              (file_types self)) of
             Inl r \<Rightarrow> Inl r
           | Inr fs2 \<Rightarrow>
               (case mkdir_exist_ok fs2 (joinpath organized_dir ''Others'') of
                  Inl e \<Rightarrow> Inl (e, fs2)
                | Inr fs3 \<Rightarrow> Inr (organized_dir, fs3))))"

text \<open>
  Lines 88-93 (and 127-132): the \<^verbatim>\<open>try\<close> block around the move. \<^verbatim>\<open>except Exception\<close>
  catches every error of the move; the label is the category or the month. The log
  messages of the organize passes (lines 69, 95, 134, 90 and 93) come first.
\<close>

definition msg_missing :: "path \<Rightarrow> string" where
  "msg_missing d = ''Source directory '' @ str_path d @ '' does not exist!''"

definition msg_organized :: "nat \<Rightarrow> string" where
  "msg_organized moved_count = ''Successfully organized '' @ str_of_nat moved_count @ '' files!''"

definition msg_organized_by_date :: "nat \<Rightarrow> string" where
  "msg_organized_by_date moved_count =
     ''Successfully organized '' @ str_of_nat moved_count @ '' files by date!''"

definition msg_moved :: "string \<Rightarrow> string \<Rightarrow> string" where
  "msg_moved nm label = ''Moved '' @ nm @ '' to '' @ label @ ''/''"

definition msg_error_moving :: "string \<Rightarrow> string \<Rightarrow> string" where
  "msg_error_moving nm e = ''Error moving '' @ nm @ '': '' @ e"

definition try_move :: "env \<Rightarrow> path \<Rightarrow> path \<Rightarrow> string \<Rightarrow> state \<times> nat \<Rightarrow> state \<times> nat" where
  "try_move env file_path destination label sm =
     (case sm of (s, moved_count) \<Rightarrow>
        (case move env (filesys s) file_path destination of
           Inr fs' \<Rightarrow>
             (logging_info (msg_moved (name file_path) label) (s\<lparr>filesys := fs'\<rparr>),
              moved_count + 1)
         | Inl e \<Rightarrow>
             (logging_error (msg_error_moving (name file_path) (str_error e)) s,
              moved_count)))"

text \<open>Lines 75-93: the loop of \<^verbatim>\<open>organize_by_type\<close> over the listing.\<close>

fun organize_by_type_loop ::
  "env \<Rightarrow> organizer \<Rightarrow> path \<Rightarrow> path list \<Rightarrow> state \<times> nat \<Rightarrow> state \<times> nat" where
  "organize_by_type_loop env self organized_dir [] sm = sm"
| "organize_by_type_loop env self organized_dir (file_path # rest) sm =
     (if is_file (filesys (fst sm)) file_path \<and> name file_path \<noteq> ''.DS_Store'' then
        (let category = get_file_category self file_path;
             destination = joinpath (joinpath organized_dir category) (name file_path);
             destination = resolve_destination (filesys (fst sm)) destination
         in organize_by_type_loop env self organized_dir rest
              (try_move env file_path destination category sm))
      else organize_by_type_loop env self organized_dir rest sm)"

definition organize_by_type :: "env \<Rightarrow> organizer \<Rightarrow> state \<Rightarrow> (error \<times> state) + state" where
  "organize_by_type env self s =
     (if \<not> exists (filesys s) (source_dir self) then
        Inr (logging_error (msg_missing (source_dir self)) s)
      else
        (case create_organized_structure self (filesys s) of
           Inl (e, fs') \<Rightarrow> Inl (e, s\<lparr>filesys := fs'\<rparr>)
         | Inr (organized_dir, fs') \<Rightarrow>
             (case iterdir fs' (source_dir self) of
                Inl e \<Rightarrow> Inl (e, s\<lparr>filesys := fs'\<rparr>)
              | Inr listing \<Rightarrow>
                  (case organize_by_type_loop env self organized_dir listing (s\<lparr>filesys := fs'\<rparr>, 0) of
                     (s', moved_count) \<Rightarrow>
                       Inr (logging_info (msg_organized moved_count) s')))))"

text \<open>
  \<^verbatim>\<open>file_path.stat().st_ctime\<close>, read for regular files only (the call is guarded by
  \<^verbatim>\<open>is_file\<close>).
\<close>

definition stat_st_ctime :: "filesystem \<Rightarrow> path \<Rightarrow> error + int" where
  "stat_st_ctime fs p =
     (case map_of fs p of
        Some (File t c) \<Rightarrow> Inr t
      | Some Dir \<Rightarrow> Inl (OSError ''the timestamp of a directory is not modelled'')
      | None \<Rightarrow> Inl (FileNotFoundError p))"

text \<open>\<^verbatim>\<open>str.zfill\<close> and \<^verbatim>\<open>strftime('%Y-%m')\<close>: the year on four digits, the month on two.\<close>

definition zfill :: "nat \<Rightarrow> string \<Rightarrow> string" where
  "zfill w s = replicate (w - length s) (CHR ''0'') @ s"

definition strftime_Ym :: "datetime \<Rightarrow> string" where
  "strftime_Ym t = zfill 4 (str_of_nat (year t)) @ ''-'' @ zfill 2 (str_of_nat (month t))"

text \<open>Lines 110-111: the month of a file's creation timestamp.\<close>

definition year_month_of :: "env \<Rightarrow> int \<Rightarrow> string" where
  "year_month_of env ctime =
     (let creation_time = fromtimestamp env ctime in strftime_Ym creation_time)"

text \<open>Lines 107-132: the loop of \<^verbatim>\<open>organize_by_date\<close>; creating the month's folder can raise.\<close>

fun organize_by_date_loop ::
  "env \<Rightarrow> path \<Rightarrow> path list \<Rightarrow> state \<times> nat \<Rightarrow> (error \<times> state) + (state \<times> nat)" where
  "organize_by_date_loop env organized_dir [] sm = Inr sm"
| "organize_by_date_loop env organized_dir (file_path # rest) sm =
     (if is_file (filesys (fst sm)) file_path \<and> name file_path \<noteq> ''.DS_Store'' then
        (case stat_st_ctime (filesys (fst sm)) file_path of
           Inl e \<Rightarrow> Inl (e, fst sm)
         | Inr ctime \<Rightarrow>
             (let year_month = year_month_of env ctime;
                  date_folder = joinpath organized_dir year_month
              in case mkdir_exist_ok (filesys (fst sm)) date_folder of
                   Inl e \<Rightarrow> Inl (e, fst sm)
                 | Inr fs' \<Rightarrow>
                     (let destination = joinpath date_folder (name file_path);
                          destination = resolve_destination fs' destination
                      in organize_by_date_loop env organized_dir rest
                           (try_move env file_path destination year_month
                              ((fst sm)\<lparr>filesys := fs'\<rparr>, snd sm)))))
      else organize_by_date_loop env organized_dir rest sm)"

definition organize_by_date :: "env \<Rightarrow> organizer \<Rightarrow> state \<Rightarrow> (error \<times> state) + state" where
  "organize_by_date env self s =
     (if \<not> exists (filesys s) (source_dir self) then
        Inr (logging_error (msg_missing (source_dir self)) s)
      else
        (let organized_dir = joinpath (source_dir self) ''Organized_by_Date'' in
         case mkdir_exist_ok (filesys s) organized_dir of
           Inl e \<Rightarrow> Inl (e, s)
         | Inr fs' \<Rightarrow>
             (case iterdir fs' (source_dir self) of
                Inl e \<Rightarrow> Inl (e, s\<lparr>filesys := fs'\<rparr>)
              | Inr listing \<Rightarrow>
                  (case organize_by_date_loop env organized_dir listing (s\<lparr>filesys := fs'\<rparr>, 0) of
                     Inl r \<Rightarrow> Inl r
                   | Inr (s', moved_count) \<Rightarrow>
                       Inr (logging_info (msg_organized_by_date moved_count) s')))))"

section \<open>The cleanup pass\<close>

text \<open>
  Lines 139-146: \<^verbatim>\<open>any(folder_path.iterdir())\<close> is true when the directory has an entry
  (a path object is always truthy). The log messages (lines 143, 146 and 148) come
  first.
\<close>

definition msg_removed_folder :: "string \<Rightarrow> string" where
  "msg_removed_folder nm = ''Removed empty folder: '' @ nm"

definition msg_error_removing :: "string \<Rightarrow> string \<Rightarrow> string" where
  "msg_error_removing nm e = ''Error removing folder '' @ nm @ '': '' @ e"

definition msg_removed :: "nat \<Rightarrow> string" where
  "msg_removed removed_count = ''Removed '' @ str_of_nat removed_count @ '' empty folders!''"

fun clean_empty_folders_loop :: "env \<Rightarrow> path list \<Rightarrow> state \<times> nat \<Rightarrow> state \<times> nat" where
  "clean_empty_folders_loop env [] sr = sr"
| "clean_empty_folders_loop env (folder_path # rest) sr =
     (if is_dir (filesys (fst sr)) folder_path \<and> entries (filesys (fst sr)) folder_path = [] then
        (case rmdir env (filesys (fst sr)) folder_path of
           Inr fs' \<Rightarrow>
             clean_empty_folders_loop env rest
               (logging_info (msg_removed_folder (name folder_path)) ((fst sr)\<lparr>filesys := fs'\<rparr>),
                snd sr + 1)
         | Inl e \<Rightarrow>
             clean_empty_folders_loop env rest
               (logging_error (msg_error_removing (name folder_path) (str_error e)) (fst sr),
                snd sr))
      else clean_empty_folders_loop env rest sr)"

definition clean_empty_folders :: "env \<Rightarrow> organizer \<Rightarrow> state \<Rightarrow> (error \<times> state) + state" where
  "clean_empty_folders env self s =
     (case iterdir (filesys s) (source_dir self) of
        Inl e \<Rightarrow> Inl (e, s)
      | Inr listing \<Rightarrow>
          (case clean_empty_folders_loop env listing (s, 0) of
             (s', removed_count) \<Rightarrow>
               Inr (logging_info (msg_removed removed_count) s')))"

section \<open>The command line\<close>

text \<open>
  \<^verbatim>\<open>main\<close> after argument parsing: the directory, the mode (argparse admits only
  \<^verbatim>\<open>type\<close> and \<^verbatim>\<open>date\<close>) and the \<^verbatim>\<open>--clean\<close> flag. The lines printed to standard
  output are not modelled. \<open>Inr\<close> is the normal end of the process (exit status 0),
  \<open>Inl\<close> an uncaught exception (a traceback and exit status 1).
\<close>

datatype mode = ByType | ByDate

record args =
  directory :: path
  mode :: mode
  clean :: bool

definition main :: "env \<Rightarrow> args \<Rightarrow> state \<Rightarrow> (error \<times> state) + state" where
  "main env a s =
     (let organizer = FileOrganizer (directory a) in
      case (case mode a of
              ByType \<Rightarrow> organize_by_type env organizer s
            | ByDate \<Rightarrow> organize_by_date env organizer s) of
        Inl r \<Rightarrow> Inl r
      | Inr s' \<Rightarrow> if clean a then clean_empty_folders env organizer s' else Inr s')"

section \<open>Example inputs\<close>

text \<open>
  An environment in which no move and no removal fails and every timestamp falls in
  January 2024, and a directory \<^verbatim>\<open>/d\<close> with two files to organize, an empty and a
  non-empty subdirectory and a \<^verbatim>\<open>.DS_Store\<close>.
\<close>

definition no_faults :: env where
  "no_faults = \<lparr>move_fault = (\<lambda>src dst. None), rmdir_fault = (\<lambda>p. None),
     fromtimestamp = (\<lambda>t. \<lparr>year = 2024, month = 1\<rparr>)\<rparr>"

definition fs_demo :: filesystem where
  "fs_demo = [([''d''], Dir), ([''d'', ''photo.JPG''], File 5 ''p''), ([''d'', ''Old''], Dir),
     ([''d'', ''Keep''], Dir), ([''d'', ''Keep'', ''k.txt''], File 6 ''k''),
     ([''d'', ''.DS_Store''], File 7 ''ds''), ([''d'', ''notes''], File 8 ''n'')]"

section \<open>The classifier is a total table lookup\<close>






section \<open>The resolver returns a free path\<close>

lemma while_exists_fresh: "\<not> exists fs (fst (while_exists fs orig dest c))"
  by (induction fs orig dest c rule: while_exists.induct)
     (subst while_exists.simps, simp)

lemma while_exists_free: "\<not> exists fs dest \<Longrightarrow> while_exists fs orig dest c = (dest, c)"
  by (subst while_exists.simps) simp

lemma while_exists_shape:
  "while_exists fs orig dest c = (d', c') \<Longrightarrow>
     c \<le> c' \<and> (if c' = c then d' = dest else exists fs dest \<and> d' = numbered orig (c' - 1))
     \<and> (\<forall>n. c \<le> n \<and> n < c' - 1 \<longrightarrow> exists fs (numbered orig n))
     \<and> c' - c \<le> pending fs orig c + (if exists fs dest then 1 else 0)"
proof (induction fs orig dest c arbitrary: d' c' rule: while_exists.induct)
  case (1 fs orig dest c)
  show ?case
  proof (cases "exists fs dest")
    case False
    with "1.prems" show ?thesis by (auto simp: while_exists_free)
  next
    case True
    with "1.prems" have rec: "while_exists fs orig (numbered orig c) (c + 1) = (d', c')"
      by (subst (asm) while_exists.simps) simp
    note IH = "1.IH" [OF True rec]
    show ?thesis
    proof (cases "exists fs (numbered orig c)")
      case ex: True
      from IH have a: "c + 1 \<le> c'"
        and b: "if c' = c + 1 then d' = numbered orig c
                else exists fs (numbered orig c) \<and> d' = numbered orig (c' - 1)"
        and c: "\<forall>n. c + 1 \<le> n \<and> n < c' - 1 \<longrightarrow> exists fs (numbered orig n)"
        and d: "c' - (c + 1) \<le> pending fs orig (c + 1) + (if exists fs (numbered orig c) then 1 else 0)"
        by blast+
      have 1: "c \<le> c'" using a by simp
      have 2: "if c' = c then d' = dest else exists fs dest \<and> d' = numbered orig (c' - 1)"
        using a b True by (auto split: if_splits)
      have 3: "\<forall>n. c \<le> n \<and> n < c' - 1 \<longrightarrow> exists fs (numbered orig n)"
      proof (intro allI impI)
        fix n assume n: "c \<le> n \<and> n < c' - 1"
        show "exists fs (numbered orig n)"
        proof (cases "n = c")
          case True with ex show ?thesis by simp
        next
          case False with n c show ?thesis by simp
        qed
      qed
      have 4: "c' - c \<le> pending fs orig c + (if exists fs dest then 1 else 0)"
        using d ex True pending_step [OF ex] by simp
      from 1 2 3 4 show ?thesis by blast
    next
      case nex: False
      from rec nex have "d' = numbered orig c" "c' = c + 1"
        by (simp_all add: while_exists_free)
      with True show ?thesis by auto
    qed
  qed
qed

lemma stem_suffix: "stem nm @ suffix nm = nm"
  by (simp add: stem_def suffix_def Let_def)

lemma numbered_ne: "d \<noteq> [] \<Longrightarrow> numbered d n \<noteq> d"
proof
  assume d: "d \<noteq> []" and eq: "numbered d n = d"
  from eq have "last (numbered d n) = last d" by simp
  with d have "stem (last d) @ ''_'' @ str_of_nat n @ suffix (last d) = last d"
    by (simp add: numbered_def joinpath_def name_def)
  then have "length (stem (last d) @ ''_'' @ str_of_nat n @ suffix (last d))
      = length (stem (last d) @ suffix (last d))"
    by (simp only: stem_suffix)
  then show False by simp
qed

lemma parent_numbered: "parent (numbered d n) = parent d"
  by (simp add: numbered_def joinpath_def parent_def)

lemma numbered_nonempty: "numbered d n \<noteq> []"
  by (simp add: numbered_def joinpath_def)

lemma length_entries:
  "length (entries fs dir) = length (filter (\<lambda>p. p \<noteq> [] \<and> parent p = dir) (map fst fs))"
  unfolding entries_def by (induction fs) auto

lemma length_filter_mono:
  "(\<And>x. P x \<Longrightarrow> Q x) \<Longrightarrow> length (filter P xs) \<le> length (filter Q xs)"
  by (induction xs) auto

lemma pending_le_entries:
  assumes "d \<noteq> []"
  shows "pending fs d 1 + (if exists fs d then 1 else 0) \<le> length (entries fs (parent d))"
proof -
  let ?keys = "map fst fs"
  let ?Q = "\<lambda>p. \<exists>n\<ge>1. p = numbered d n"
  let ?R = "\<lambda>p. p = d"
  let ?P = "\<lambda>p. ?Q p \<or> ?R p"
  have split: "length (filter ?P ?keys) = length (filter ?Q ?keys) + length (filter ?R ?keys)"
    by (rule length_filter_split) (use numbered_ne [OF assms, THEN not_sym] in auto)
  have ex: "(if exists fs d then 1 else 0) \<le> length (filter ?R ?keys)"
  proof (cases "exists fs d")
    case True
    then have "d \<in> set ?keys" by (simp add: exists_iff)
    from length_filter_eq_pos [OF this] have "1 \<le> length (filter ?R ?keys)"
      by linarith
    with True show ?thesis by (simp only: if_True)
  next
    case False
    then show ?thesis by simp
  qed
  have "length (filter ?P ?keys) \<le> length (filter (\<lambda>p. p \<noteq> [] \<and> parent p = parent d) ?keys)"
    by (rule length_filter_mono) (use assms in \<open>auto simp: parent_numbered numbered_nonempty\<close>)
  with split ex show ?thesis
    unfolding pending_def length_entries by simp
qed

text \<open>
  C3. The destination resolver returns the desired path unchanged when nothing exists
  there, never returns a path that exists in the filesystem it was called on, and, when
  \<^verbatim>\<open>a.txt\<close> and \<^verbatim>\<open>a_1.txt\<close> exist in a directory and \<^verbatim>\<open>a_2.txt\<close> does not, resolves
  \<^verbatim>\<open>a.txt\<close> to \<^verbatim>\<open>a_2.txt\<close>.
\<close>

theorem resolve_destination_free:
  "(\<not> exists fs d \<longrightarrow> resolve_destination fs d = d)
   \<and> \<not> exists fs (resolve_destination fs d)
   \<and> (exists fs (joinpath dir ''a.txt'') \<and> exists fs (joinpath dir ''a_1.txt'')
        \<and> \<not> exists fs (joinpath dir ''a_2.txt'')
      \<longrightarrow> resolve_destination fs (joinpath dir ''a.txt'') = joinpath dir ''a_2.txt'')"
proof (intro conjI impI)
  assume "\<not> exists fs d"
  then show "resolve_destination fs d = d"
    by (simp add: resolve_destination_def while_exists_free)
next
  show "\<not> exists fs (resolve_destination fs d)"
    unfolding resolve_destination_def by (rule while_exists_fresh)
next
  assume h: "exists fs (joinpath dir ''a.txt'') \<and> exists fs (joinpath dir ''a_1.txt'')
        \<and> \<not> exists fs (joinpath dir ''a_2.txt'')"
  have n1: "numbered (joinpath dir ''a.txt'') (Suc 0) = joinpath dir ''a_1.txt''"
    by (simp add: numbered_def joinpath_def parent_def name_def stem_def suffix_def
        str_of_nat.simps digit_def)
  have n2: "numbered (joinpath dir ''a.txt'') (Suc (Suc 0)) = joinpath dir ''a_2.txt''"
    by (simp add: numbered_def joinpath_def parent_def name_def stem_def suffix_def
        str_of_nat.simps digit_def)
  have "while_exists fs (joinpath dir ''a.txt'') (joinpath dir ''a.txt'') (Suc 0)
      = while_exists fs (joinpath dir ''a.txt'') (joinpath dir ''a_1.txt'') (Suc (Suc 0))"
    using h by (subst while_exists.simps) (simp add: n1)
  also have "\<dots> = while_exists fs (joinpath dir ''a.txt'') (joinpath dir ''a_2.txt'')
      (Suc (Suc (Suc 0)))"
    using h by (subst while_exists.simps) (simp add: n2)
  also have "\<dots> = (joinpath dir ''a_2.txt'', Suc (Suc (Suc 0)))"
    using h by (simp add: while_exists_free)
  finally show "resolve_destination fs (joinpath dir ''a.txt'') = joinpath dir ''a_2.txt''"
    by (simp add: resolve_destination_def)
qed

text \<open>A directory \<^verbatim>\<open>/d\<close> holding \<^verbatim>\<open>a.txt\<close> and \<^verbatim>\<open>a_1.txt\<close>.\<close>

definition fs_a :: filesystem where
  "fs_a = [([''d''], Dir), ([''d'', ''a.txt''], File 0 ''x''), ([''d'', ''a_1.txt''], File 0 ''y'')]"

theorem resolve_destination_free_witness:
  "resolve_destination fs_a [''d'', ''b.txt''] = [''d'', ''b.txt'']
   \<and> resolve_destination fs_a [''d'', ''a.txt''] = [''d'', ''a_2.txt'']"
proof -
  have f: "\<not> exists fs_a [''d'', ''b.txt'']" by (simp add: exists_def fs_a_def)
  have g: "exists fs_a (joinpath [''d''] ''a.txt'') \<and> exists fs_a (joinpath [''d''] ''a_1.txt'')
        \<and> \<not> exists fs_a (joinpath [''d''] ''a_2.txt'')"
    by (simp add: exists_def fs_a_def joinpath_def)
  have a: "resolve_destination fs_a [''d'', ''b.txt''] = [''d'', ''b.txt'']"
    by (rule resolve_destination_free [THEN conjunct1, THEN mp, OF f])
  have "resolve_destination fs_a (joinpath [''d''] ''a.txt'') = joinpath [''d''] ''a_2.txt''"
    by (rule resolve_destination_free [THEN conjunct2, THEN conjunct2, THEN mp, OF g])
  then have b: "resolve_destination fs_a [''d'', ''a.txt''] = [''d'', ''a_2.txt'']"
    by (simp add: joinpath_def)
  show ?thesis by (rule conjI [OF a b])
qed

text \<open>
  C6. The collision loop is a total function (its termination is proved at its
  definition, for every filesystem and path), so it is deterministic and terminates. It
  returns the desired path itself, or the candidate \<open>stem_n.suffix\<close> in the same
  directory for the first \<open>n \<ge> 1\<close> that is free; the counter at exit, which is the number
  of existence checks, is at most the number of entries of the destination directory
  plus one.
\<close>

theorem while_exists_bounded:
  "(\<exists>dest counter. while_exists fs d d 1 = (dest, counter)
      \<and> 1 \<le> counter
      \<and> (if counter = 1 then dest = d else exists fs d \<and> dest = numbered d (counter - 1))
      \<and> (\<forall>n. 1 \<le> n \<and> n < counter - 1 \<longrightarrow> exists fs (numbered d n))
      \<and> \<not> exists fs dest
      \<and> (d \<noteq> [] \<longrightarrow> counter \<le> length (entries fs (parent d)) + 1))
   \<and> parent (numbered d n) = parent d
   \<and> name (numbered d n) = stem (name d) @ ''_'' @ str_of_nat n @ suffix (name d)"
proof -
  obtain dest counter where w: "while_exists fs d d 1 = (dest, counter)"
    by (cases "while_exists fs d d 1")
  note sh = while_exists_shape [OF w]
  have fresh: "\<not> exists fs dest" using while_exists_fresh [of fs d d 1] w by simp
  have bound: "d \<noteq> [] \<longrightarrow> counter \<le> length (entries fs (parent d)) + 1"
  proof
    assume "d \<noteq> []"
    from sh have "counter - 1 \<le> pending fs d 1 + (if exists fs d then 1 else 0)"
      by simp
    with pending_le_entries [OF \<open>d \<noteq> []\<close>, of fs]
    show "counter \<le> length (entries fs (parent d)) + 1"
      by linarith
  qed
  have nm: "name (numbered d n) = stem (name d) @ ''_'' @ str_of_nat n @ suffix (name d)"
    by (simp add: numbered_def joinpath_def name_def)
  from sh have s1: "1 \<le> counter"
    and s2: "if counter = 1 then dest = d else exists fs d \<and> dest = numbered d (counter - 1)"
    and s3: "\<forall>n. 1 \<le> n \<and> n < counter - 1 \<longrightarrow> exists fs (numbered d n)"
    by simp_all
  have "while_exists fs d d 1 = (dest, counter)
      \<and> 1 \<le> counter
      \<and> (if counter = 1 then dest = d else exists fs d \<and> dest = numbered d (counter - 1))
      \<and> (\<forall>n. 1 \<le> n \<and> n < counter - 1 \<longrightarrow> exists fs (numbered d n))
      \<and> \<not> exists fs dest
      \<and> (d \<noteq> [] \<longrightarrow> counter \<le> length (entries fs (parent d)) + 1)"
    by (intro conjI w s1 s2 s3 fresh bound)
  then have ex: "\<exists>dest counter. while_exists fs d d 1 = (dest, counter)
      \<and> 1 \<le> counter
      \<and> (if counter = 1 then dest = d else exists fs d \<and> dest = numbered d (counter - 1))
      \<and> (\<forall>n. 1 \<le> n \<and> n < counter - 1 \<longrightarrow> exists fs (numbered d n))
      \<and> \<not> exists fs dest
      \<and> (d \<noteq> [] \<longrightarrow> counter \<le> length (entries fs (parent d)) + 1)"
    by (intro exI)
  show ?thesis
    by (intro conjI ex nm parent_numbered)
qed

theorem while_exists_bounded_witness:
  "while_exists fs_a [''d'', ''a.txt''] [''d'', ''a.txt''] 1 = ([''d'', ''a_2.txt''], 3)
   \<and> length (entries fs_a (parent [''d'', ''a.txt''])) = 2
   \<and> (\<exists>dest counter. while_exists fs_a [''d'', ''a.txt''] [''d'', ''a.txt''] 1 = (dest, counter)
        \<and> counter \<le> length (entries fs_a (parent [''d'', ''a.txt''])) + 1)"
proof -
  have ne: "[''d'', ''a.txt''] \<noteq> ([] :: path)" by simp
  from while_exists_bounded [of fs_a "[''d'', ''a.txt'']"] ne
  have c: "\<exists>dest counter. while_exists fs_a [''d'', ''a.txt''] [''d'', ''a.txt''] 1 = (dest, counter)
        \<and> counter \<le> length (entries fs_a (parent [''d'', ''a.txt''])) + 1"
    by fast
  have ex0: "exists fs_a [''d'', ''a.txt'']" by (simp add: exists_def fs_a_def)
  have n1: "numbered [''d'', ''a.txt''] (Suc 0) = [''d'', ''a_1.txt'']"
    by (simp add: numbered_def joinpath_def parent_def name_def stem_def suffix_def
        str_of_nat.simps digit_def)
  have ex1: "exists fs_a [''d'', ''a_1.txt'']" by (simp add: exists_def fs_a_def)
  have n2: "numbered [''d'', ''a.txt''] (Suc (Suc 0)) = [''d'', ''a_2.txt'']"
    by (simp add: numbered_def joinpath_def parent_def name_def stem_def suffix_def
        str_of_nat.simps digit_def)
  have ex2: "\<not> exists fs_a [''d'', ''a_2.txt'']" by (simp add: exists_def fs_a_def)
  have "while_exists fs_a [''d'', ''a.txt''] [''d'', ''a.txt''] (Suc 0)
      = while_exists fs_a [''d'', ''a.txt''] [''d'', ''a_1.txt''] (Suc (Suc 0))"
    by (subst while_exists.simps) (simp add: ex0 n1)
  also have "\<dots> = while_exists fs_a [''d'', ''a.txt''] [''d'', ''a_2.txt'']
      (Suc (Suc (Suc 0)))"
    by (subst while_exists.simps) (simp add: ex1 n2)
  also have "\<dots> = ([''d'', ''a_2.txt''], Suc (Suc (Suc 0)))"
    by (rule while_exists_free [OF ex2])
  finally have a: "while_exists fs_a [''d'', ''a.txt''] [''d'', ''a.txt''] 1
      = ([''d'', ''a_2.txt''], 3)"
    by (simp add: numeral_3_eq_3)
  have b: "length (entries fs_a (parent [''d'', ''a.txt''])) = 2"
    by (simp add: entries_def fs_a_def parent_def)
  show ?thesis by (rule conjI [OF a conjI [OF b c]])
qed

section \<open>A missing source directory\<close>

lemma organize_by_type_missing:
  "\<not> exists (filesys s) (source_dir self) \<Longrightarrow>
     organize_by_type env self s
       = Inr (logging_error (msg_missing (source_dir self)) s)"
  by (simp add: organize_by_type_def)

lemma organize_by_date_missing:
  "\<not> exists (filesys s) (source_dir self) \<Longrightarrow>
     organize_by_date env self s
       = Inr (logging_error (msg_missing (source_dir self)) s)"
  by (simp add: organize_by_date_def)

lemma clean_empty_folders_missing:
  "\<not> exists (filesys s) (source_dir self) \<Longrightarrow>
     clean_empty_folders env self s = Inl (FileNotFoundError (source_dir self), s)"
  by (simp add: clean_empty_folders_def iterdir_def exists_def)

text \<open>
  C7. With a source directory that does not exist, each organize pass logs the error,
  changes nothing and returns (the three lemmas above), and the process ends normally
  when \<^verbatim>\<open>--clean\<close> is not given. With \<^verbatim>\<open>--clean\<close>, the cleanup pass has no such guard:
  \<^verbatim>\<open>iterdir\<close> raises \<^verbatim>\<open>FileNotFoundError\<close>, which nothing catches. The run below is
  \<^verbatim>\<open>file_organizer.py /missing --clean\<close> in both modes, and without \<^verbatim>\<open>--clean\<close>.
\<close>

theorem main_missing_directory_clean:
  "main no_faults \<lparr>directory = [''missing''], mode = ByType, clean = True\<rparr>
        \<lparr>filesys = fs_demo, log = []\<rparr>
     = Inl (FileNotFoundError [''missing''],
            \<lparr>filesys = fs_demo, log = [(ERROR, ''Source directory /missing does not exist!'')]\<rparr>)
   \<and> main no_faults \<lparr>directory = [''missing''], mode = ByDate, clean = True\<rparr>
        \<lparr>filesys = fs_demo, log = []\<rparr>
     = Inl (FileNotFoundError [''missing''],
            \<lparr>filesys = fs_demo, log = [(ERROR, ''Source directory /missing does not exist!'')]\<rparr>)
   \<and> main no_faults \<lparr>directory = [''missing''], mode = ByType, clean = False\<rparr>
        \<lparr>filesys = fs_demo, log = []\<rparr>
     = Inr \<lparr>filesys = fs_demo, log = [(ERROR, ''Source directory /missing does not exist!'')]\<rparr>"
proof -
  have ne: "\<not> exists fs_demo [''missing'']" by (simp add: exists_def fs_demo_def)
  show ?thesis
    by (simp add: main_def FileOrganizer_def organize_by_type_missing organize_by_date_missing
        clean_empty_folders_missing ne logging_error_def str_path_def msg_missing_def)
qed

section \<open>The date bucketer\<close>

text \<open>The range of a Python \<^verbatim>\<open>datetime\<close>: years 1 to 9999, months 1 to 12.\<close>

definition valid_date :: "datetime \<Rightarrow> bool" where
  "valid_date t = (1 \<le> year t \<and> year t \<le> 9999 \<and> 1 \<le> month t \<and> month t \<le> 12)"

lemma length_str_of_nat: "0 < k \<Longrightarrow> n < 10 ^ k \<Longrightarrow> length (str_of_nat n) \<le> k"
proof (induction n arbitrary: k rule: str_of_nat.induct)
  case (1 n)
  show ?case
  proof (cases "n < 10")
    case True
    with "1.prems" show ?thesis by (simp add: str_of_nat.simps [of n])
  next
    case False
    with "1.prems" have k: "0 < k - 1"
      by (cases k; cases "k - 1") auto
    from "1.prems" k have "n < 10 * 10 ^ (k - 1)"
      by (metis power_eq_if not_gr_zero)
    then have "n div 10 < 10 ^ (k - 1)" by simp
    from "1.IH" [OF False k this] False k show ?thesis
      by (simp add: str_of_nat.simps [of n])
  qed
qed

lemma hd_str_of_nat: "hd (str_of_nat n) = CHR ''0'' \<Longrightarrow> n = 0"
proof (induction n rule: str_of_nat.induct)
  case (1 n)
  show ?case
  proof (cases "n < 10")
    case True
    with "1.prems" have "digit n = digit 0" by (simp add: str_of_nat.simps [of n] digit_def)
    with True show ?thesis using digit_inj [of n 0] by simp
  next
    case False
    with "1.prems" have "hd (str_of_nat (n div 10)) = CHR ''0''"
      by (simp add: str_of_nat.simps [of n] str_of_nat_nonempty)
    from "1.IH" [OF False this] False show ?thesis by simp
  qed
qed

lemma replicate_append_hd:
  assumes "replicate a c @ s = replicate b c @ t" and "a < b" and "s \<noteq> []"
  shows "hd s = c"
proof -
  from assms(1) have "(replicate a c @ s) ! a = (replicate b c @ t) ! a" by simp
  with assms(2,3) show ?thesis by (simp add: nth_append hd_conv_nth)
qed

lemma zfill_str_less:
  assumes eq: "zfill w (str_of_nat n) = zfill w (str_of_nat m)"
    and n: "length (str_of_nat n) \<le> w" and m: "length (str_of_nat m) \<le> w"
  shows "\<not> length (str_of_nat m) < length (str_of_nat n)"
proof
  assume less: "length (str_of_nat m) < length (str_of_nat n)"
  with n m have "w - length (str_of_nat n) < w - length (str_of_nat m)" by simp
  from replicate_append_hd [OF eq [unfolded zfill_def] this str_of_nat_nonempty]
  have "n = 0" by (rule hd_str_of_nat)
  then have "length (str_of_nat n) = 1" by (simp add: str_of_nat.simps [of 0])
  with less str_of_nat_nonempty [of m] show False by simp
qed

lemma zfill_str_inj:
  assumes eq: "zfill w (str_of_nat n) = zfill w (str_of_nat m)"
    and n: "length (str_of_nat n) \<le> w" and m: "length (str_of_nat m) \<le> w"
  shows "n = m"
proof -
  from zfill_str_less [OF eq n m] zfill_str_less [OF eq [symmetric] m n]
  have "length (str_of_nat n) = length (str_of_nat m)" by simp
  with eq have "str_of_nat n = str_of_nat m" by (simp add: zfill_def)
  then show ?thesis by (rule str_of_nat_inj)
qed

lemma length_zfill: "length s \<le> w \<Longrightarrow> length (zfill w s) = w"
  by (simp add: zfill_def)

text \<open>
  C8. The label of a creation timestamp is the year of its local calendar time on four
  digits, a hyphen, and the month on two digits (seven characters); two timestamps get
  the same label exactly when their local times have the same year and month. The
  local calendar time is the platform's, \<^verbatim>\<open>datetime.fromtimestamp\<close>.
\<close>

theorem year_month_of_bucket:
  assumes "valid_date (fromtimestamp env t1)" and "valid_date (fromtimestamp env t2)"
  shows "year_month_of env t1
           = zfill 4 (str_of_nat (year (fromtimestamp env t1))) @ ''-''
               @ zfill 2 (str_of_nat (month (fromtimestamp env t1)))
     \<and> length (year_month_of env t1) = 7
     \<and> (year_month_of env t1 = year_month_of env t2
          \<longleftrightarrow> year (fromtimestamp env t1) = year (fromtimestamp env t2)
              \<and> month (fromtimestamp env t1) = month (fromtimestamp env t2))"
proof -
  let ?y1 = "year (fromtimestamp env t1)" and ?m1 = "month (fromtimestamp env t1)"
  let ?y2 = "year (fromtimestamp env t2)" and ?m2 = "month (fromtimestamp env t2)"
  have ly: "length (str_of_nat ?y1) \<le> 4" "length (str_of_nat ?y2) \<le> 4"
    using assms by (auto simp: valid_date_def intro!: length_str_of_nat)
  have lm: "length (str_of_nat ?m1) \<le> 2" "length (str_of_nat ?m2) \<le> 2"
    using assms by (auto simp: valid_date_def intro!: length_str_of_nat)
  have a: "year_month_of env t1 = zfill 4 (str_of_nat ?y1) @ ''-'' @ zfill 2 (str_of_nat ?m1)"
    by (simp add: year_month_of_def strftime_Ym_def Let_def)
  have b: "length (year_month_of env t1) = 7"
    unfolding a using ly lm by (simp add: length_zfill)
  have c: "year_month_of env t1 = year_month_of env t2 \<longleftrightarrow> ?y1 = ?y2 \<and> ?m1 = ?m2"
  proof
    assume "year_month_of env t1 = year_month_of env t2"
    then have "zfill 4 (str_of_nat ?y1) @ ''-'' @ zfill 2 (str_of_nat ?m1)
        = zfill 4 (str_of_nat ?y2) @ ''-'' @ zfill 2 (str_of_nat ?m2)"
      by (simp add: year_month_of_def strftime_Ym_def Let_def)
    then have "zfill 4 (str_of_nat ?y1) = zfill 4 (str_of_nat ?y2)"
      and "zfill 2 (str_of_nat ?m1) = zfill 2 (str_of_nat ?m2)"
      using ly lm by (simp_all add: length_zfill)
    then show "?y1 = ?y2 \<and> ?m1 = ?m2"
      using ly lm by (auto dest: zfill_str_inj)
  next
    assume "?y1 = ?y2 \<and> ?m1 = ?m2"
    then show "year_month_of env t1 = year_month_of env t2"
      by (simp add: year_month_of_def strftime_Ym_def Let_def)
  qed
  from a b c show ?thesis by blast
qed

text \<open>An environment whose local time changes month at timestamp 1706742000.\<close>

definition two_months :: env where
  "two_months = \<lparr>move_fault = (\<lambda>src dst. None), rmdir_fault = (\<lambda>p. None),
     fromtimestamp = (\<lambda>t. if t < 1706742000 then \<lparr>year = 2024, month = 1\<rparr>
                           else \<lparr>year = 2024, month = 2\<rparr>)\<rparr>"

theorem year_month_of_bucket_witness:
  "year_month_of two_months 1706000000 = ''2024-01''
   \<and> year_month_of two_months 1706700000 = ''2024-01''
   \<and> year_month_of two_months 1706800000 = ''2024-02''
   \<and> length (year_month_of two_months 1706000000) = 7
   \<and> year_month_of two_months 1706000000 \<noteq> year_month_of two_months 1706800000"
proof -
  have v1: "valid_date (fromtimestamp two_months 1706000000)"
    by (simp add: valid_date_def two_months_def)
  have v2: "valid_date (fromtimestamp two_months 1706800000)"
    by (simp add: valid_date_def two_months_def)
  have m: "month (fromtimestamp two_months 1706000000) \<noteq> month (fromtimestamp two_months 1706800000)"
    by (simp add: two_months_def)
  note T = year_month_of_bucket [OF v1 v2]
  have l: "length (year_month_of two_months 1706000000) = 7"
    by (rule T [THEN conjunct2, THEN conjunct1])
  have d: "year_month_of two_months 1706000000 \<noteq> year_month_of two_months 1706800000"
    using T [THEN conjunct2, THEN conjunct2] m by simp
  have s2024: "str_of_nat 2024 = ''2024''"
    by (simp add: str_of_nat.simps [of 2024] str_of_nat.simps [of 202] str_of_nat.simps [of 20]
        str_of_nat.simps [of 2] digit_def)
  have e1: "year_month_of two_months 1706000000 = ''2024-01''"
    by (simp add: year_month_of_def strftime_Ym_def two_months_def zfill_def s2024
        str_of_nat.simps [of "Suc 0"] digit_def Let_def)
  have e2: "year_month_of two_months 1706700000 = ''2024-01''"
    by (simp add: year_month_of_def strftime_Ym_def two_months_def zfill_def s2024
        str_of_nat.simps [of "Suc 0"] digit_def Let_def)
  have e3: "year_month_of two_months 1706800000 = ''2024-02''"
    by (simp add: year_month_of_def strftime_Ym_def two_months_def zfill_def s2024
        str_of_nat.simps [of 2] digit_def Let_def)
  show ?thesis
    by (intro conjI e1 e2 e3 l d)
qed

section \<open>Steps of a pass over the filesystem\<close>

text \<open>
  Line 76 (and 108): the test that selects the entries a pass works on.
\<close>

definition visited :: "filesystem \<Rightarrow> path \<Rightarrow> bool" where
  "visited fs file_path = (is_file fs file_path \<and> name file_path \<noteq> ''.DS_Store'')"

definition ds_store :: string where
  "ds_store = ''.DS_Store''"

lemma visited_name: "visited fs p \<Longrightarrow> name p \<noteq> ds_store"
  by (simp add: visited_def ds_store_def)


lemma map_of_filter_ne:
  "map_of (filter (\<lambda>(q, n). q \<noteq> k) fs) p = (if p = k then None else map_of fs p)"
  by (induction fs) auto

lemma map_of_snoc:
  "map_of (fs @ [(k, v)]) p = (case map_of fs p of Some x \<Rightarrow> Some x | None \<Rightarrow> if p = k then Some v else None)"
  by (simp add: map_add_def split: option.splits)

lemma map_of_None_keys: "map_of fs p = None \<longleftrightarrow> p \<notin> set (map fst fs)"
  by (simp add: map_of_eq_None_iff)




text \<open>
  What one iteration of an organize loop can do to the filesystem, for the source
  directory \<open>D\<close>: move a file to organize from \<open>D\<close> to a path that does not exist, below
  \<open>D\<close> but not directly in it, which the relation \<open>T\<close> admits as its target; or create a
  directory that is not directly in \<open>D\<close>.
\<close>

inductive step :: "path \<Rightarrow> (path \<Rightarrow> node \<Rightarrow> path \<Rightarrow> bool) \<Rightarrow> filesystem \<Rightarrow> filesystem \<Rightarrow> bool"
  for D T where
  step_move:
    "map_of fs p = Some (File t c) \<Longrightarrow> p \<noteq> [] \<Longrightarrow> parent p = D \<Longrightarrow> name p \<noteq> ds_store
      \<Longrightarrow> map_of fs dst = None \<Longrightarrow> dst \<noteq> [] \<Longrightarrow> parent dst \<noteq> D
      \<Longrightarrow> take (length D) dst = D \<Longrightarrow> T p (File t c) dst
      \<Longrightarrow> step D T fs (filter (\<lambda>(q, n). q \<noteq> p) fs @ [(dst, File t c)])"
| step_mkdir:
    "map_of fs q = None \<Longrightarrow> parent q \<noteq> D \<Longrightarrow> step D T fs (fs @ [(q, Dir)])"

lemma step_lookup:
  assumes "step D T fs fs'"
  shows "(\<exists>q. map_of fs q = None \<and> parent q \<noteq> D \<and> map_of fs' = (map_of fs)(q \<mapsto> Dir))
    \<or> (\<exists>p t c dst. map_of fs p = Some (File t c) \<and> p \<noteq> [] \<and> parent p = D
          \<and> name p \<noteq> ds_store \<and> map_of fs dst = None \<and> dst \<noteq> [] \<and> parent dst \<noteq> D
          \<and> take (length D) dst = D \<and> T p (File t c) dst
          \<and> map_of fs' = (map_of fs)(p := None, dst \<mapsto> File t c))"
  using assms
proof cases
  case (step_move p t c dst)
  have "map_of fs' = (map_of fs)(p := None, dst \<mapsto> File t c)"
  proof
    fix x
    show "map_of fs' x = ((map_of fs)(p := None, dst \<mapsto> File t c)) x"
      using step_move by (auto simp: map_add_def map_of_filter_ne split: option.splits)
  qed
  with step_move show ?thesis by blast
next
  case (step_mkdir q)
  have "map_of fs' = (map_of fs)(q \<mapsto> Dir)"
  proof
    fix x
    show "map_of fs' x = ((map_of fs)(q \<mapsto> Dir)) x"
      using step_mkdir by (auto simp: map_add_def split: option.splits)
  qed
  with step_mkdir show ?thesis by blast
qed



definition steps :: "path \<Rightarrow> (path \<Rightarrow> node \<Rightarrow> path \<Rightarrow> bool) \<Rightarrow> filesystem \<Rightarrow> filesystem \<Rightarrow> bool" where
  "steps D T = rtranclp (step D T)"

lemma steps_refl: "steps D T fs fs"
  by (simp add: steps_def)

lemma steps_step: "steps D T a b \<Longrightarrow> step D T b c \<Longrightarrow> steps D T a c"
  by (simp add: steps_def)

lemma steps_trans: "steps D T a b \<Longrightarrow> steps D T b c \<Longrightarrow> steps D T a c"
  by (simp add: steps_def)

lemma steps_induct [consumes 1, case_names base step]:
  assumes "steps D T a b" and "P a" and "\<And>y z. steps D T a y \<Longrightarrow> step D T y z \<Longrightarrow> P y \<Longrightarrow> P z"
  shows "P b"
  using assms unfolding steps_def by (induction rule: rtranclp_induct) auto





text \<open>
  The frame of a sequence of steps: a binding of the initial filesystem is still there,
  or it was a file to organize that is gone from its place and now stands at a target
  path that did not exist initially.
\<close>

definition relocated ::
  "path \<Rightarrow> (path \<Rightarrow> node \<Rightarrow> path \<Rightarrow> bool) \<Rightarrow> filesystem \<Rightarrow> filesystem \<Rightarrow> path \<Rightarrow> node \<Rightarrow> bool" where
  "relocated D T fs fs' p nd =
     (nd \<noteq> Dir \<and> p \<noteq> [] \<and> parent p = D \<and> name p \<noteq> ds_store \<and> map_of fs' p = None
      \<and> (\<exists>dst. T p nd dst \<and> dst \<noteq> [] \<and> parent dst \<noteq> D \<and> take (length D) dst = D
            \<and> map_of fs dst = None \<and> map_of fs' dst = Some nd))"

lemma relocatedI:
  "nd \<noteq> Dir \<Longrightarrow> p \<noteq> [] \<Longrightarrow> parent p = D \<Longrightarrow> name p \<noteq> ds_store \<Longrightarrow> map_of fs' p = None
    \<Longrightarrow> T p nd dst \<Longrightarrow> dst \<noteq> [] \<Longrightarrow> parent dst \<noteq> D \<Longrightarrow> take (length D) dst = D
    \<Longrightarrow> map_of fs dst = None \<Longrightarrow> map_of fs' dst = Some nd
    \<Longrightarrow> relocated D T fs fs' p nd"
  unfolding relocated_def by blast

lemma relocatedE:
  assumes "relocated D T fs fs' p nd"
  obtains dst where "nd \<noteq> Dir" "p \<noteq> []" "parent p = D" "name p \<noteq> ds_store"
    "map_of fs' p = None" "T p nd dst" "dst \<noteq> []" "parent dst \<noteq> D" "take (length D) dst = D"
    "map_of fs dst = None" "map_of fs' dst = Some nd"
  using assms unfolding relocated_def by blast

lemma steps_frame:
  "steps D T fs fs' \<Longrightarrow> map_of fs p = Some nd \<Longrightarrow>
     map_of fs' p = Some nd \<or> relocated D T fs fs' p nd"
proof (induction arbitrary: p nd rule: steps_induct)
  case base
  then show ?case by simp
next
  case (step y z)
  note IH = step.IH
  have fresh0: "map_of fs x = None" if x: "map_of y x = None" "parent x \<noteq> D" for x
  proof (cases "map_of fs x")
    case None
    then show ?thesis .
  next
    case (Some n)
    from IH [OF Some] show ?thesis
    proof
      assume "map_of y x = Some n"
      with x(1) show ?thesis by simp
    next
      assume "relocated D T fs y x n"
      then have "parent x = D" by (rule relocatedE)
      with x(2) show ?thesis by simp
    qed
  qed
  from step_lookup [OF step.hyps(2)] show ?case
  proof (elim disjE exE conjE)
    fix q
    assume q: "map_of y q = None" "parent q \<noteq> D" "map_of z = (map_of y)(q \<mapsto> Dir)"
    from IH [OF step.prems] show ?thesis
    proof
      assume yp: "map_of y p = Some nd"
      with q(1) have "p \<noteq> q" by auto
      with q(3) yp have "map_of z p = Some nd" by (simp add: fun_upd_apply)
      then show ?thesis ..
    next
      assume r: "relocated D T fs y p nd"
      then obtain dst where d: "nd \<noteq> Dir" "p \<noteq> []" "parent p = D" "name p \<noteq> ds_store"
        "map_of y p = None" "T p nd dst" "dst \<noteq> []" "parent dst \<noteq> D" "take (length D) dst = D"
        "map_of fs dst = None" "map_of y dst = Some nd"
        by (rule relocatedE)
      from d(3) q(2) have "p \<noteq> q" by blast
      with q(3) d(5) have zp: "map_of z p = None" by (simp add: fun_upd_apply)
      from d(11) q(1) have "dst \<noteq> q" by auto
      with q(3) d(11) have zd: "map_of z dst = Some nd" by (simp add: fun_upd_apply)
      have "relocated D T fs z p nd"
        by (rule relocatedI [where T = T, OF d(1) d(2) d(3) d(4) zp d(6) d(7) d(8) d(9) d(10) zd])
      then show ?thesis ..
    qed
  next
    fix p' t c dst'
    assume m: "map_of y p' = Some (File t c)" "p' \<noteq> []" "parent p' = D" "name p' \<noteq> ds_store"
      "map_of y dst' = None" "dst' \<noteq> []" "parent dst' \<noteq> D" "take (length D) dst' = D"
      "T p' (File t c) dst'" "map_of z = (map_of y)(p' := None, dst' \<mapsto> File t c)"
    from m(1) m(5) have ne: "p' \<noteq> dst'" by auto
    from IH [OF step.prems] show ?thesis
    proof
      assume yp: "map_of y p = Some nd"
      show ?thesis
      proof (cases "p = p'")
        case True
        with yp m(1) have nd: "nd = File t c" by simp
        have f0: "map_of fs dst' = None" by (rule fresh0 [OF m(5) m(7)])
        from m(10) ne have zp: "map_of z p' = None" by (simp add: fun_upd_apply)
        from m(10) have zd: "map_of z dst' = Some (File t c)" by (simp add: fun_upd_apply)
        have "relocated D T fs z p' (File t c)"
          by (rule relocatedI [where T = T, OF _ m(2) m(3) m(4) zp m(9) m(6) m(7) m(8) f0 zd]) simp
        with True nd show ?thesis by simp
      next
        case False
        from yp m(5) have "p \<noteq> dst'" by auto
        with False m(10) yp have "map_of z p = Some nd" by (simp add: fun_upd_apply)
        then show ?thesis ..
      qed
    next
      assume r: "relocated D T fs y p nd"
      then obtain dst where d: "nd \<noteq> Dir" "p \<noteq> []" "parent p = D" "name p \<noteq> ds_store"
        "map_of y p = None" "T p nd dst" "dst \<noteq> []" "parent dst \<noteq> D" "take (length D) dst = D"
        "map_of fs dst = None" "map_of y dst = Some nd"
        by (rule relocatedE)
      from d(8) m(3) have "dst \<noteq> p'" by blast
      moreover from d(11) m(5) have "dst \<noteq> dst'" by auto
      ultimately have zd: "map_of z dst = Some nd" using m(10) d(11) by (simp add: fun_upd_apply)
      from d(3) m(7) have "p \<noteq> dst'" by blast
      with m(10) d(5) have zp: "map_of z p = None" by (simp add: fun_upd_apply)
      have "relocated D T fs z p nd"
        by (rule relocatedI [where T = T, OF d(1) d(2) d(3) d(4) zp d(6) d(7) d(8) d(9) d(10) zd])
      then show ?thesis ..
    qed
  qed
qed

lemma steps_is_dir:
  assumes "steps D T fs fs'" and "is_dir fs q"
  shows "is_dir fs' q"
proof -
  from assms(2) have "map_of fs q = Some Dir" by (simp add: is_dir_def)
  from steps_frame [OF assms(1) this] show ?thesis
  proof
    assume "map_of fs' q = Some Dir"
    then show ?thesis by (simp add: is_dir_def)
  next
    assume "relocated D T fs fs' q Dir"
    then have "Dir \<noteq> Dir" by (rule relocatedE)
    then show ?thesis by simp
  qed
qed



section \<open>One iteration of an organize loop\<close>

lemma filter_conj_absent:
  "dst \<notin> set (map fst fs) \<Longrightarrow>
     filter (\<lambda>(q, n). q \<noteq> src \<and> q \<noteq> dst) fs = filter (\<lambda>(q, n). q \<noteq> src) fs"
  by (induction fs) auto

lemma move_fresh:
  assumes "map_of fs dst = None" and "move env fs src dst = Inr fs'"
  shows "\<exists>t c. map_of fs src = Some (File t c)
           \<and> fs' = filter (\<lambda>(q, n). q \<noteq> src) fs @ [(dst, File t c)]"
proof -
  from assms(1) have nd: "\<not> is_dir fs dst" by (simp add: is_dir_def)
  from assms(1) have abs: "dst \<notin> set (map fst fs)" by (simp add: map_of_None_keys)
  from assms(2) nd show ?thesis
    by (auto simp: move_def Let_def filter_conj_absent [OF abs]
        split: option.splits node.splits if_splits)
qed

lemma move_fresh_ok:
  assumes "map_of fs dst = None" and "map_of fs src = Some (File t c)"
    and "is_dir fs (parent dst)" and "move_fault env src dst = None"
  shows "\<exists>fs'. move env fs src dst = Inr fs'"
proof -
  from assms(1) have nd: "\<not> is_dir fs dst" by (simp add: is_dir_def)
  with assms show ?thesis by (simp add: move_def Let_def)
qed

text \<open>Creating at most one directory, not directly in the source directory.\<close>

definition mkstep :: "path \<Rightarrow> filesystem \<Rightarrow> filesystem \<Rightarrow> bool" where
  "mkstep D a b = (b = a \<or> (\<exists>q. map_of a q = None \<and> parent q \<noteq> D \<and> b = a @ [(q, Dir)]))"

lemma mkstep_steps: "mkstep D a b \<Longrightarrow> steps D T a b"
  unfolding mkstep_def
  by (auto intro: steps_refl steps_step [OF steps_refl] step_mkdir)



text \<open>
  The three outcomes of one iteration on the entry \<open>fp\<close>, from the state and the count of
  moved files before it to those after it: the entry is skipped; or the move fails and
  the error is logged (the destination folder exists when the move is tried, so that
  only the environment can fail it); or the file is moved to a path that did not exist.
\<close>

inductive iter ::
  "env \<Rightarrow> path \<Rightarrow> (path \<Rightarrow> node \<Rightarrow> path \<Rightarrow> bool) \<Rightarrow> path \<Rightarrow> state \<times> nat \<Rightarrow> state \<times> nat \<Rightarrow> bool"
  for env D T fp where
  iter_skip: "\<not> visited (filesys s) fp \<Longrightarrow> iter env D T fp (s, k) (s, k)"
| iter_fail:
    "visited (filesys s) fp \<Longrightarrow> mkstep D (filesys s) (filesys s')
      \<Longrightarrow> map_of (filesys s') dst = None \<Longrightarrow> map_of (filesys s') fp = Some nd \<Longrightarrow> T fp nd dst
      \<Longrightarrow> move_fault env fp dst = Some detail
      \<Longrightarrow> log s' = log s @ [(ERROR, msg_error_moving (name fp) detail)]
      \<Longrightarrow> iter env D T fp (s, k) (s', k)"
| iter_moved:
    "visited (filesys s) fp \<Longrightarrow> mkstep D (filesys s) mk
      \<Longrightarrow> map_of mk fp = Some (File t c) \<Longrightarrow> map_of mk dst = None \<Longrightarrow> dst \<noteq> []
      \<Longrightarrow> parent dst \<noteq> D \<Longrightarrow> take (length D) dst = D \<Longrightarrow> T fp (File t c) dst
      \<Longrightarrow> filesys s' = filter (\<lambda>(q, n). q \<noteq> fp) mk @ [(dst, File t c)]
      \<Longrightarrow> log s' = log s @ [(INFO, msg_moved (name fp) label)]
      \<Longrightarrow> iter env D T fp (s, k) (s', k + 1)"

lemma iter_steps:
  assumes "iter env D T fp (s, k) (s', k')" and "fp \<noteq> []" and "parent fp = D"
  shows "steps D T (filesys s) (filesys s')"
  using assms(1)
proof cases
  case iter_skip
  then show ?thesis by (simp add: steps_refl)
next
  case (iter_fail dst nd detail)
  then show ?thesis by (simp add: mkstep_steps)
next
  case (iter_moved mk t c dst label)
  have "step D T mk (filter (\<lambda>(q, n). q \<noteq> fp) mk @ [(dst, File t c)])"
    by (rule step_move [where T = T, OF iter_moved(4) assms(2) assms(3) visited_name [OF iter_moved(2)]
          iter_moved(5) iter_moved(6) iter_moved(7) iter_moved(8) iter_moved(9)])
  with mkstep_steps [OF iter_moved(3), of T] iter_moved(10) show ?thesis
    by (simp add: steps_step)
qed




section \<open>A whole loop\<close>

text \<open>The iterations of a loop over a listing of entries of the source directory.\<close>

inductive run ::
  "env \<Rightarrow> path \<Rightarrow> (path \<Rightarrow> node \<Rightarrow> path \<Rightarrow> bool) \<Rightarrow> path list \<Rightarrow> state \<times> nat \<Rightarrow> state \<times> nat \<Rightarrow> bool"
  for env D T where
  run_Nil: "run env D T [] sm sm"
| run_Cons:
    "fp \<noteq> [] \<Longrightarrow> parent fp = D \<Longrightarrow> iter env D T fp sm sm1 \<Longrightarrow> run env D T rest sm1 sm'
      \<Longrightarrow> run env D T (fp # rest) sm sm'"

lemma run_steps: "run env D T L sm sm' \<Longrightarrow> steps D T (filesys (fst sm)) (filesys (fst sm'))"
proof (induction rule: run.induct)
  case (run_Nil sm)
  show ?case by (rule steps_refl)
next
  case (run_Cons fp sm sm1 rest sm')
  from iter_steps [of env D T fp "fst sm" "snd sm" "fst sm1" "snd sm1"] run_Cons.hyps
  have "steps D T (filesys (fst sm)) (filesys (fst sm1))" by simp
  from this run_Cons.IH show ?case by (rule steps_trans)
qed






section \<open>Facts about paths and the filesystem operations\<close>

lemma resolve_destination_cases:
  "resolve_destination fs d = d \<or> (\<exists>n. resolve_destination fs d = numbered d n)"
proof -
  obtain dest counter where w: "while_exists fs d d 1 = (dest, counter)"
    by (cases "while_exists fs d d 1")
  from while_exists_shape [OF w] have "dest = d \<or> dest = numbered d (counter - 1)"
    by (auto split: if_splits)
  with w show ?thesis by (auto simp: resolve_destination_def)
qed

lemma resolve_destination_joinpath:
  "\<exists>nm. resolve_destination fs (joinpath dir x) = joinpath dir nm"
  using resolve_destination_cases [of fs "joinpath dir x"]
  by (auto simp: numbered_def parent_def joinpath_def)

lemma resolve_destination_None: "map_of fs (resolve_destination fs d) = None"
  using while_exists_fresh [of fs d d 1] by (simp add: resolve_destination_def exists_def)

lemma parent_joinpath: "parent (joinpath dir x) = dir"
  by (simp add: parent_def joinpath_def)

lemma joinpath_nonempty: "joinpath dir x \<noteq> []"
  by (simp add: joinpath_def)

lemma joinpath2_ne: "joinpath (joinpath D a) b \<noteq> D"
  by (simp add: joinpath_def)

lemma joinpath_ne: "joinpath D a \<noteq> D"
  by (simp add: joinpath_def)

lemma take_joinpath3: "take (length D) (joinpath (joinpath (joinpath D a) b) c) = D"
  by (simp add: joinpath_def)

lemma is_file_lookup: "is_file fs p \<longleftrightarrow> (\<exists>t c. map_of fs p = Some (File t c))"
  by (auto simp: is_file_def split: option.splits node.splits)

lemma mkdir_exist_ok_cases:
  assumes "mkdir_exist_ok fs p = Inr fs'"
  shows "(fs' = fs \<and> is_dir fs p)
     \<or> (map_of fs p = None \<and> is_dir fs (parent p) \<and> fs' = fs @ [(p, Dir)])"
  using assms
  by (auto simp: mkdir_exist_ok_def is_dir_def split: option.splits node.splits)



lemma mkdir_exist_ok_is_dir: "mkdir_exist_ok fs p = Inr fs' \<Longrightarrow> is_dir fs' p"
  by (drule mkdir_exist_ok_cases) (auto simp: is_dir_def map_add_def)



section \<open>Creating the folders\<close>

text \<open>A filesystem grows by new directories only.\<close>

definition grow :: "filesystem \<Rightarrow> filesystem \<Rightarrow> bool" where
  "grow = rtranclp (\<lambda>a b. \<exists>q. map_of a q = None \<and> b = a @ [(q, Dir)])"

lemma grow_refl: "grow a a"
  by (simp add: grow_def)

lemma grow_trans: "grow a b \<Longrightarrow> grow b c \<Longrightarrow> grow a c"
  by (simp add: grow_def)

lemma grow_one: "map_of a q = None \<Longrightarrow> grow a (a @ [(q, Dir)])"
  unfolding grow_def by (rule r_into_rtranclp) blast

lemma grow_induct [consumes 1, case_names base step]:
  assumes "grow a b" and "P a"
    and "\<And>y q. grow a y \<Longrightarrow> map_of y q = None \<Longrightarrow> P y \<Longrightarrow> P (y @ [(q, Dir)])"
  shows "P b"
  using assms unfolding grow_def by (induction rule: rtranclp_induct) auto

lemma grow_lookup: "grow a b \<Longrightarrow> map_of a x = Some nd \<Longrightarrow> map_of b x = Some nd"
  by (induction rule: grow_induct) (auto simp: map_add_def split: option.splits)


lemma grow_is_dir: "grow a b \<Longrightarrow> is_dir a x \<Longrightarrow> is_dir b x"
  by (simp add: is_dir_def grow_lookup)





lemma mkdir_exist_ok_grow: "mkdir_exist_ok fs p = Inr fs' \<Longrightarrow> grow fs fs'"
  by (drule mkdir_exist_ok_cases) (auto intro: grow_refl grow_one)

lemma mkdirs_grow:
  "mkdirs fs ps = Inr fs' \<Longrightarrow> grow fs fs' \<and> (\<forall>p\<in>set ps. is_dir fs' p)"
proof (induction ps arbitrary: fs)
  case Nil
  then show ?case by (simp add: grow_refl)
next
  case (Cons p ps)
  from Cons.prems obtain fs1 where 1: "mkdir_exist_ok fs p = Inr fs1" and 2: "mkdirs fs1 ps = Inr fs'"
    by (auto split: sum.splits)
  from Cons.IH [OF 2] have g: "grow fs1 fs'" and d: "\<forall>p\<in>set ps. is_dir fs' p" by simp_all
  from grow_is_dir [OF g mkdir_exist_ok_is_dir [OF 1]] have "is_dir fs' p" .
  with d grow_trans [OF mkdir_exist_ok_grow [OF 1] g] show ?case by simp
qed




text \<open>The folders of type mode: one for each category of the table, and one for the rest.\<close>

definition category_dirs :: "organizer \<Rightarrow> path list" where
  "category_dirs self =
     map (\<lambda>(category, extensions). joinpath (joinpath (source_dir self) ''Organized'') category)
       (file_types self)
     @ [joinpath (joinpath (source_dir self) ''Organized'') ''Others'']"

lemma create_organized_structure_Inr:
  assumes "create_organized_structure self fs = Inr (od, fs')"
  shows "od = joinpath (source_dir self) ''Organized'' \<and> grow fs fs' \<and> is_dir fs' od
     \<and> (\<forall>p\<in>set (category_dirs self). is_dir fs' p)"
proof -
  let ?OD = "joinpath (source_dir self) ''Organized''"
  let ?cats = "map (\<lambda>(category, extensions). joinpath ?OD category) (file_types self)"
  obtain fs1 where 1: "mkdir_exist_ok fs ?OD = Inr fs1"
    using assms by (cases "mkdir_exist_ok fs ?OD") (simp_all add: create_organized_structure_def Let_def)
  obtain fs2 where 2: "mkdirs fs1 ?cats = Inr fs2"
    using assms 1 by (cases "mkdirs fs1 ?cats") (simp_all add: create_organized_structure_def Let_def)
  obtain fs3 where m3: "mkdir_exist_ok fs2 (joinpath ?OD ''Others'') = Inr fs3"
    using assms 1 2 by (cases "mkdir_exist_ok fs2 (joinpath ?OD ''Others'')")
      (simp_all add: create_organized_structure_def Let_def)
  from assms 1 2 m3 have od: "od = ?OD" and "fs' = fs3"
    by (simp_all add: create_organized_structure_def Let_def)
  with m3 have 3: "mkdir_exist_ok fs2 (joinpath ?OD ''Others'') = Inr fs'" by simp
  note g1 = mkdir_exist_ok_grow [OF 1] and g3 = mkdir_exist_ok_grow [OF 3]
  from mkdirs_grow [OF 2] have g2: "grow fs1 fs2" and d2: "\<forall>p\<in>set ?cats. is_dir fs2 p"
    by simp_all
  have g: "grow fs fs'" by (rule grow_trans [OF g1 grow_trans [OF g2 g3]])
  have "is_dir fs' ?OD"
    by (rule grow_is_dir [OF grow_trans [OF g2 g3] mkdir_exist_ok_is_dir [OF 1]])
  moreover have "\<forall>p\<in>set (category_dirs self). is_dir fs' p"
    using d2 grow_is_dir [OF g3] mkdir_exist_ok_is_dir [OF 3]
    by (auto simp: category_dirs_def)
  ultimately show ?thesis using od g by simp
qed




section \<open>The loops of the program are such loops\<close>

text \<open>
  The targets of the two modes: a path in the folder of the file's category, or in the
  folder of the month of its creation timestamp.
\<close>

definition type_target :: "organizer \<Rightarrow> path \<Rightarrow> node \<Rightarrow> path \<Rightarrow> bool" where
  "type_target self fp nd dst =
     (parent dst = joinpath (joinpath (source_dir self) ''Organized'') (get_file_category self fp))"


lemma move_fault_Some:
  "move_fault env src dst = Some detail \<Longrightarrow> move env fs src dst = Inl (OSError detail)"
  by (simp add: move_def)

lemma try_move_iter:
  assumes v: "visited (filesys s) fp"
    and mk: "mkstep D (filesys s) mk"
    and isf: "map_of mk fp = Some (File t c)"
    and dst: "dst = joinpath (joinpath (joinpath D a) b) nm"
    and fresh: "map_of mk dst = None"
    and pd: "is_dir mk (parent dst)"
    and T: "T fp (File t c) dst"
  shows "iter env D T fp (s, k) (try_move env fp dst label (s\<lparr>filesys := mk\<rparr>, k))"
proof (cases "move env mk fp dst")
  case (Inl e)
  obtain detail where fault: "move_fault env fp dst = Some detail"
  proof (cases "move_fault env fp dst")
    case None
    from move_fresh_ok [OF fresh isf pd None] Inl show ?thesis by simp
  qed
  from move_fault_Some [OF fault, of mk] Inl have e: "str_error e = detail" by simp
  let ?s' = "logging_error (msg_error_moving (name fp) detail) (s\<lparr>filesys := mk\<rparr>)"
  have "iter env D T fp (s, k) (?s', k)"
  proof (rule iter_fail [where T = T, OF v _ _ _ T fault])
    show "mkstep D (filesys s) (filesys ?s')" using mk by (simp add: logging_error_def)
    show "map_of (filesys ?s') dst = None" using fresh by (simp add: logging_error_def)
    show "map_of (filesys ?s') fp = Some (File t c)" using isf by (simp add: logging_error_def)
    show "log ?s' = log s @ [(ERROR, msg_error_moving (name fp) detail)]"
      by (simp add: logging_error_def)
  qed
  with Inl e show ?thesis by (simp add: try_move_def)
next
  case (Inr fs')
  let ?s' = "logging_info (msg_moved (name fp) label) (s\<lparr>filesys := fs'\<rparr>)"
  from move_fresh [OF fresh Inr] isf
  have fs': "fs' = filter (\<lambda>(q, n). q \<noteq> fp) mk @ [(dst, File t c)]" by auto
  have "iter env D T fp (s, k) (?s', k + 1)"
  proof (rule iter_moved [where T = T, OF v mk isf fresh _ _ _ T])
    show "dst \<noteq> []" unfolding dst by (rule joinpath_nonempty)
    show "parent dst \<noteq> D" unfolding dst parent_joinpath by (rule joinpath2_ne)
    show "take (length D) dst = D" unfolding dst by (rule take_joinpath3)
    show "filesys ?s' = filter (\<lambda>(q, n). q \<noteq> fp) mk @ [(dst, File t c)]"
      using fs' by (simp add: logging_info_def)
    show "log ?s' = log s @ [(INFO, msg_moved (name fp) label)]"
      by (simp add: logging_info_def)
  qed
  with Inr show ?thesis by (simp add: try_move_def)
qed

lemma mkstep_refl: "mkstep D a a"
  by (simp add: mkstep_def)

lemma visited_unfold:
  "(is_file fs p \<and> name p \<noteq> ''.DS_Store'') = visited fs p"
  by (simp add: visited_def)

lemma category_of_cases:
  "category_of tbl e = ''Others'' \<or> category_of tbl e \<in> fst ` set tbl"
  by (induction tbl) force+

lemma category_dir_mem:
  "joinpath (joinpath (source_dir self) ''Organized'') (get_file_category self fp)
     \<in> set (category_dirs self)"
  using category_of_cases [of "file_types self" "lower (suffix (name fp))"]
  by (auto simp: category_dirs_def get_file_category_def image_iff)

lemma type_loop_run:
  "\<forall>p\<in>set L. p \<noteq> [] \<and> parent p = source_dir self \<Longrightarrow>
   \<forall>p\<in>set (category_dirs self). is_dir (filesys (fst sm)) p \<Longrightarrow>
     run env (source_dir self) (type_target self) L sm
       (organize_by_type_loop env self (joinpath (source_dir self) ''Organized'') L sm)"
proof (induction L arbitrary: sm)
  case Nil
  show ?case by (simp add: run_Nil)
next
  case (Cons fp rest)
  let ?D = "source_dir self"
  let ?OD = "joinpath ?D ''Organized''"
  obtain s k where sm: "sm = (s, k)" by (cases sm)
  from Cons.prems have fp: "fp \<noteq> []" "parent fp = ?D" by simp_all
  from Cons.prems have rest: "\<forall>p\<in>set rest. p \<noteq> [] \<and> parent p = ?D" by simp
  from Cons.prems(2) have dirs: "\<forall>p\<in>set (category_dirs self). is_dir (filesys s) p"
    by (simp add: sm)
  show ?case
  proof (cases "visited (filesys s) fp")
    case False
    then have "iter env ?D (type_target self) fp sm sm" unfolding sm by (rule iter_skip)
    from run_Cons [OF fp this Cons.IH [OF rest Cons.prems(2)]] False show ?thesis
      by (simp add: sm visited_unfold)
  next
    case True
    let ?cat = "get_file_category self fp"
    let ?d0 = "joinpath (joinpath ?OD ?cat) (name fp)"
    let ?dst = "resolve_destination (filesys s) ?d0"
    from resolve_destination_joinpath [of "filesys s" "joinpath ?OD ?cat" "name fp"]
    obtain nm where nm: "?dst = joinpath (joinpath ?OD ?cat) nm" by blast
    from True obtain t c where isf: "map_of (filesys s) fp = Some (File t c)"
      by (auto simp: visited_def is_file_lookup)
    have T: "type_target self fp (File t c) ?dst"
      unfolding type_target_def nm by (rule parent_joinpath)
    have pd: "is_dir (filesys s) (parent ?dst)"
      unfolding nm parent_joinpath using dirs category_dir_mem [of self fp] by blast
    have "iter env ?D (type_target self) fp (s, k)
        (try_move env fp ?dst ?cat (s\<lparr>filesys := filesys s\<rparr>, k))"
      by (rule try_move_iter [where T = "type_target self", OF True mkstep_refl isf nm
            resolve_destination_None pd T])
    then have it: "iter env ?D (type_target self) fp sm (try_move env fp ?dst ?cat sm)"
      by (simp add: sm)
    obtain s1 k1 where sm1: "try_move env fp ?dst ?cat sm = (s1, k1)"
      by (cases "try_move env fp ?dst ?cat sm")
    have "iter env ?D (type_target self) fp (s, k) (s1, k1)"
      using it sm1 by (simp add: sm)
    then have "steps ?D (type_target self) (filesys s) (filesys s1)"
      by (rule iter_steps [OF _ fp])
    then have "\<forall>p\<in>set (category_dirs self). is_dir (filesys s1) p"
      using dirs by (blast intro: steps_is_dir)
    then have "\<forall>p\<in>set (category_dirs self). is_dir (filesys (fst (try_move env fp ?dst ?cat sm))) p"
      by (simp add: sm1)
    from run_Cons [OF fp it Cons.IH [OF rest this]] True show ?thesis
      by (simp add: sm visited_unfold Let_def)
  qed
qed






section \<open>The passes as a whole\<close>

lemma entries_filter:
  "entries fs d = filter (\<lambda>p. p \<noteq> [] \<and> parent p = d) (map fst fs)"
  unfolding entries_def by (induction fs) auto

lemma set_entries: "p \<in> set (entries fs d) \<longleftrightarrow> p \<in> set (map fst fs) \<and> p \<noteq> [] \<and> parent p = d"
  by (simp add: entries_filter)


lemma iterdir_Inr: "iterdir fs d = Inr L \<Longrightarrow> L = entries fs d \<and> is_dir fs d"
  by (auto simp: iterdir_def is_dir_def split: option.splits node.splits)



text \<open>
  What a type-mode pass that returns has done: created folders, then run the loop over
  the listing of the source directory, then logged the count.
\<close>

lemma organize_by_type_Inr:
  assumes "exists (filesys s) (source_dir self)" and "organize_by_type env self s = Inr s'"
  obtains fs1 s1 k where "grow (filesys s) fs1" "is_dir fs1 (source_dir self)"
    "is_dir fs1 (joinpath (source_dir self) ''Organized'')"
    "\<forall>p\<in>set (category_dirs self). is_dir fs1 p"
    "run env (source_dir self) (type_target self) (entries fs1 (source_dir self))
       (s\<lparr>filesys := fs1\<rparr>, 0) (s1, k)"
    "s' = logging_info (msg_organized k) s1"
proof -
  let ?D = "source_dir self"
  obtain od fs1 where c: "create_organized_structure self (filesys s) = Inr (od, fs1)"
    using assms by (cases "create_organized_structure self (filesys s)")
      (auto simp: organize_by_type_def)
  from create_organized_structure_Inr [OF c] have od: "od = joinpath ?D ''Organized''"
    and g: "grow (filesys s) fs1" and d1: "is_dir fs1 od"
    and d2: "\<forall>p\<in>set (category_dirs self). is_dir fs1 p" by blast+
  obtain L where it: "iterdir fs1 ?D = Inr L"
    using assms c by (cases "iterdir fs1 ?D") (auto simp: organize_by_type_def)
  from iterdir_Inr [OF it] have L: "L = entries fs1 ?D" and dD: "is_dir fs1 ?D" by simp_all
  obtain s1 k where lp: "organize_by_type_loop env self od L (s\<lparr>filesys := fs1\<rparr>, 0) = (s1, k)"
    by (cases "organize_by_type_loop env self od L (s\<lparr>filesys := fs1\<rparr>, 0)")
  from assms c it lp have s': "s' = logging_info (msg_organized k) s1"
    by (simp add: organize_by_type_def)
  have "\<forall>p\<in>set L. p \<noteq> [] \<and> parent p = ?D" unfolding L by (simp add: set_entries)
  from type_loop_run [OF this, of "(s\<lparr>filesys := fs1\<rparr>, 0)" env] d2 lp
  have "run env ?D (type_target self) (entries fs1 ?D) (s\<lparr>filesys := fs1\<rparr>, 0) (s1, k)"
    by (simp add: od L)
  from that [OF g dD d1 [unfolded od] d2 this s'] show ?thesis .
qed



section \<open>No file is lost\<close>











section \<open>Every file is moved or stays, none is lost\<close>








section \<open>Errors of single moves are caught\<close>











section \<open>Running a pass twice\<close>













text \<open>The state a type-mode pass over \<^verbatim>\<open>/d\<close> leaves when no move fails.\<close>

definition after_first :: state where
  "after_first = \<lparr>filesys =
        [([''d''], Dir), ([''d'', ''Old''], Dir), ([''d'', ''Keep''], Dir),
         ([''d'', ''Keep'', ''k.txt''], File 6 ''k''),
         ([''d'', ''.DS_Store''], File 7 ''ds''),
         ([''d'', ''Organized''], Dir),
         ([''d'', ''Organized'', ''Images''], Dir),
         ([''d'', ''Organized'', ''Documents''], Dir),
         ([''d'', ''Organized'', ''Spreadsheets''], Dir),
         ([''d'', ''Organized'', ''Presentations''], Dir),
         ([''d'', ''Organized'', ''Videos''], Dir),
         ([''d'', ''Organized'', ''Audio''], Dir),
         ([''d'', ''Organized'', ''Archives''], Dir),
         ([''d'', ''Organized'', ''Code''], Dir),
         ([''d'', ''Organized'', ''Executables''], Dir),
         ([''d'', ''Organized'', ''Others''], Dir),
         ([''d'', ''Organized'', ''Images'', ''photo.JPG''], File 5 ''p''),
         ([''d'', ''Organized'', ''Others'', ''notes''], File 8 ''n'')],
        log =
          [(INFO, ''Moved photo.JPG to Images/''),
           (INFO, ''Moved notes to Others/''),
           (INFO, ''Successfully organized 2 files!'')]\<rparr>"

lemma first_run:
  "organize_by_type no_faults (FileOrganizer [''d'']) \<lparr>filesys = fs_demo, log = []\<rparr>
     = Inr after_first"
  by code_simp


section \<open>Which entries a pass skips\<close>







section \<open>What the cleanup pass removes\<close>

lemma rmdir_Inr:
  "rmdir env fs p = Inr fs' \<Longrightarrow> fs' = filter (\<lambda>(q, n). q \<noteq> p) fs"
  by (auto simp: rmdir_def split: option.splits node.splits if_splits)

lemma entries_empty: "entries fs x = [] \<Longrightarrow> y \<noteq> [] \<Longrightarrow> parent y = x \<Longrightarrow> map_of fs y = None"
  by (auto simp: entries_filter filter_empty_conv map_of_None_keys)

lemma entries_emptyI: "(\<And>y. y \<noteq> [] \<Longrightarrow> parent y = x \<Longrightarrow> map_of fs y = None) \<Longrightarrow> entries fs x = []"
  by (auto simp: entries_filter filter_empty_conv map_of_None_keys)

lemma parent_ne: "x \<noteq> [] \<Longrightarrow> parent x \<noteq> x"
proof
  assume "x \<noteq> []" and "parent x = x"
  then have "length (butlast x) = length x" by (simp add: parent_def)
  then have "length x - 1 = length x" by simp
  moreover from \<open>x \<noteq> []\<close> have "0 < length x" by simp
  ultimately show False by arith
qed

text \<open>
  What the loop of the cleanup pass does to an entry of the filesystem: it is still
  there, or it was one of the listed paths, a directory without entries, and is gone.
  Nothing appears.
\<close>

definition pruned :: "path set \<Rightarrow> filesystem \<Rightarrow> filesystem \<Rightarrow> bool" where
  "pruned R fs fs' =
     ((\<forall>x nd. map_of fs' x = Some nd \<longrightarrow> map_of fs x = Some nd)
      \<and> (\<forall>x nd. map_of fs x = Some nd \<longrightarrow>
            map_of fs' x = Some nd
            \<or> (x \<in> R \<and> nd = Dir \<and> entries fs x = [] \<and> map_of fs' x = None)))"

lemma pruned_refl: "pruned R fs fs"
  by (simp add: pruned_def)

lemma pruned_mono: "pruned R fs fs' \<Longrightarrow> R \<subseteq> R' \<Longrightarrow> pruned R' fs fs'"
  unfolding pruned_def by blast

lemma pruned_remove:
  assumes d: "is_dir fs fp" and e: "entries fs fp = []"
    and rest: "pruned R (filter (\<lambda>(q, n). q \<noteq> fp) fs) fs'"
    and R: "\<forall>x\<in>R. x \<noteq> [] \<and> parent x = D" and fp: "parent fp = D"
  shows "pruned (insert fp R) fs fs'"
  unfolding pruned_def
proof (intro conjI allI impI)
  let ?cur' = "filter (\<lambda>(q, n). q \<noteq> fp) fs"
  from rest have a: "\<And>x nd. map_of fs' x = Some nd \<Longrightarrow> map_of ?cur' x = Some nd"
    and b: "\<And>x nd. map_of ?cur' x = Some nd \<Longrightarrow> map_of fs' x = Some nd
            \<or> (x \<in> R \<and> nd = Dir \<and> entries ?cur' x = [] \<and> map_of fs' x = None)"
    unfolding pruned_def by blast+
  {
    fix x nd assume "map_of fs' x = Some nd"
    from a [OF this] show "map_of fs x = Some nd"
      by (simp add: map_of_filter_ne split: if_splits)
  }
  {
    fix x nd assume x: "map_of fs x = Some nd"
    show "map_of fs' x = Some nd
        \<or> (x \<in> insert fp R \<and> nd = Dir \<and> entries fs x = [] \<and> map_of fs' x = None)"
    proof (cases "x = fp")
      case True
      have "map_of fs' fp = None"
      proof (cases "map_of fs' fp")
        case (Some n)
        from a [OF Some] show ?thesis by (simp add: map_of_filter_ne)
      qed simp
      with True x d e show ?thesis by (simp add: is_dir_def)
    next
      case False
      with x have "map_of ?cur' x = Some nd" by (simp add: map_of_filter_ne)
      from b [OF this] show ?thesis
      proof
        assume "map_of fs' x = Some nd"
        then show ?thesis ..
      next
        assume r: "x \<in> R \<and> nd = Dir \<and> entries ?cur' x = [] \<and> map_of fs' x = None"
        with R have xD: "x \<noteq> []" "parent x = D" by auto
        have "entries fs x = []"
        proof (rule entries_emptyI)
          fix y assume y: "y \<noteq> []" "parent y = x"
          have "y \<noteq> fp"
          proof
            assume "y = fp"
            with y(2) fp have "x = D" by simp
            with xD parent_ne [of x] show False by simp
          qed
          moreover from r y have "map_of ?cur' y = None" by (intro entries_empty) auto
          ultimately show "map_of fs y = None" by (simp add: map_of_filter_ne)
        qed
        with r show ?thesis by simp
      qed
    qed
  }
qed

lemma clean_loop_pruned:
  "\<forall>p\<in>set L. p \<noteq> [] \<and> parent p = D \<Longrightarrow>
     pruned (set L) (filesys (fst sr)) (filesys (fst (clean_empty_folders_loop env L sr)))"
proof (induction L arbitrary: sr)
  case Nil
  show ?case by (simp add: pruned_refl)
next
  case (Cons fp rest)
  from Cons.prems have fp: "fp \<noteq> []" "parent fp = D"
    and rest: "\<forall>p\<in>set rest. p \<noteq> [] \<and> parent p = D" by simp_all
  let ?cur = "filesys (fst sr)"
  have sub: "set rest \<subseteq> set (fp # rest)" by auto
  show ?case
  proof (cases "is_dir ?cur fp \<and> entries ?cur fp = []")
    case False
    with pruned_mono [OF Cons.IH [OF rest, of sr] sub] show ?thesis by auto
  next
    case True
    show ?thesis
    proof (cases "rmdir env ?cur fp")
      case (Inl e)
      let ?sr1 = "(logging_error (msg_error_removing (name fp) (str_error e)) (fst sr), snd sr)"
      have "filesys (fst ?sr1) = ?cur" by (simp add: logging_error_def)
      with pruned_mono [OF Cons.IH [OF rest, of ?sr1] sub] True Inl show ?thesis by simp
    next
      case (Inr fs')
      let ?sr1 = "(logging_info (msg_removed_folder (name fp)) ((fst sr)\<lparr>filesys := fs'\<rparr>),
        snd sr + 1)"
      have f1: "filesys (fst ?sr1) = filter (\<lambda>(q, n). q \<noteq> fp) ?cur"
        using rmdir_Inr [OF Inr] by (simp add: logging_info_def)
      from Cons.IH [OF rest, of ?sr1]
      have "pruned (set rest) (filter (\<lambda>(q, n). q \<noteq> fp) ?cur)
          (filesys (fst (clean_empty_folders_loop env rest ?sr1)))"
        by (simp only: f1)
      from pruned_remove [OF _ _ this rest fp(2)] True
      have "pruned (insert fp (set rest)) ?cur
          (filesys (fst (clean_empty_folders_loop env rest ?sr1)))" by blast
      with True Inr show ?thesis by simp
    qed
  qed
qed

lemma clean_empty_folders_pruned:
  assumes "clean_empty_folders env self s = Inr s2 \<or> clean_empty_folders env self s = Inl (e, s2)"
  shows "pruned {x. x \<noteq> [] \<and> parent x = source_dir self} (filesys s) (filesys s2)"
proof (cases "iterdir (filesys s) (source_dir self)")
  case (Inl e')
  with assms have "s2 = s" by (auto simp: clean_empty_folders_def)
  then show ?thesis by (simp add: pruned_refl)
next
  case (Inr L)
  from iterdir_Inr [OF Inr] have L: "L = entries (filesys s) (source_dir self)" by simp
  then have ch: "\<forall>p\<in>set L. p \<noteq> [] \<and> parent p = source_dir self" by (simp add: set_entries)
  obtain s1 n where lp: "clean_empty_folders_loop env L (s, 0) = (s1, n)"
    by (cases "clean_empty_folders_loop env L (s, 0)")
  from assms Inr lp have "s2 = logging_info (msg_removed n) s1"
    by (auto simp: clean_empty_folders_def)
  then have "filesys s2 = filesys (fst (clean_empty_folders_loop env L (s, 0)))"
    by (simp add: lp logging_info_def)
  with clean_loop_pruned [OF ch, of "(s, 0)" env] have "pruned (set L) (filesys s) (filesys s2)"
    by simp
  moreover from ch have "set L \<subseteq> {x. x \<noteq> [] \<and> parent x = source_dir self}" by auto
  ultimately show ?thesis by (rule pruned_mono)
qed

lemma category_dirs_parent:
  "q \<in> set (category_dirs self) \<Longrightarrow> parent q = joinpath (source_dir self) ''Organized''"
  by (auto simp: category_dirs_def parent_joinpath)

lemma others_in_category_dirs:
  "joinpath (joinpath (source_dir self) ''Organized'') ''Others'' \<in> set (category_dirs self)"
  by (simp add: category_dirs_def)

lemma organize_by_type_folders:
  assumes "exists (filesys s0) (source_dir self)" and "organize_by_type env0 self s0 = Inr s"
  shows "is_dir (filesys s) (joinpath (source_dir self) ''Organized'')
     \<and> (\<forall>q\<in>set (category_dirs self). is_dir (filesys s) q)"
proof -
  let ?D = "source_dir self"
  from organize_by_type_Inr [OF assms] obtain fs1 s1 k where
    dO: "is_dir fs1 (joinpath ?D ''Organized'')" and
    dC: "\<forall>p\<in>set (category_dirs self). is_dir fs1 p" and
    rn: "run env0 ?D (type_target self) (entries fs1 ?D) (s0\<lparr>filesys := fs1\<rparr>, 0) (s1, k)" and
    s: "s = logging_info (msg_organized k) s1" by blast
  from run_steps [OF rn] have st: "steps ?D (type_target self) fs1 (filesys s)"
    by (simp add: s logging_info_def)
  from steps_is_dir [OF st] dO dC show ?thesis by blast
qed

text \<open>
  C10. The cleanup pass, whether it returns or raises, creates nothing and removes only
  directories that are directly in the source directory and have no entries; every
  other entry keeps its place. After a type-mode pass that returned, \<^verbatim>\<open>Organized\<close>
  (which is not empty) and every category folder in it (which is not directly in the
  source directory), empty or not, are still directories after the cleanup.
\<close>

theorem clean_empty_folders_keeps:
  assumes "clean_empty_folders env self s = Inr s2 \<or> clean_empty_folders env self s = Inl (e, s2)"
  shows "(\<forall>x nd. map_of (filesys s) x = Some nd \<longrightarrow>
            map_of (filesys s2) x = Some nd
            \<or> (x \<noteq> [] \<and> parent x = source_dir self \<and> nd = Dir \<and> entries (filesys s) x = []
                \<and> map_of (filesys s2) x = None))
     \<and> (\<forall>x nd. map_of (filesys s2) x = Some nd \<longrightarrow> map_of (filesys s) x = Some nd)
     \<and> (\<forall>env0 s0. exists (filesys s0) (source_dir self) \<and> organize_by_type env0 self s0 = Inr s
          \<longrightarrow> is_dir (filesys s2) (joinpath (source_dir self) ''Organized'')
              \<and> (\<forall>q\<in>set (category_dirs self). is_dir (filesys s2) q))"
proof -
  let ?D = "source_dir self"
  let ?OD = "joinpath ?D ''Organized''"
  note pr = clean_empty_folders_pruned [OF assms]
  from pr have a: "\<forall>x nd. map_of (filesys s) x = Some nd \<longrightarrow>
            map_of (filesys s2) x = Some nd
            \<or> (x \<noteq> [] \<and> parent x = ?D \<and> nd = Dir \<and> entries (filesys s) x = []
                \<and> map_of (filesys s2) x = None)"
    unfolding pruned_def by blast
  from pr have b: "\<forall>x nd. map_of (filesys s2) x = Some nd \<longrightarrow> map_of (filesys s) x = Some nd"
    unfolding pruned_def by blast
  have c: "is_dir (filesys s2) ?OD \<and> (\<forall>q\<in>set (category_dirs self). is_dir (filesys s2) q)"
    if h: "exists (filesys s0) ?D \<and> organize_by_type env0 self s0 = Inr s" for env0 s0
  proof
    from h organize_by_type_folders [of s0 self env0 s]
    have dO: "is_dir (filesys s) ?OD" and dC: "\<forall>q\<in>set (category_dirs self). is_dir (filesys s) q"
      by blast+
    from dC others_in_category_dirs [of self]
    have "map_of (filesys s) (joinpath ?OD ''Others'') = Some Dir" by (auto simp: is_dir_def)
    then have ne: "entries (filesys s) ?OD \<noteq> []"
      using entries_empty [of "filesys s" ?OD "joinpath ?OD ''Others''"]
      by (auto simp: parent_joinpath joinpath_nonempty)
    from dO a ne show "is_dir (filesys s2) ?OD" by (auto simp: is_dir_def)
    show "\<forall>q\<in>set (category_dirs self). is_dir (filesys s2) q"
    proof
      fix q assume q: "q \<in> set (category_dirs self)"
      with dC have "map_of (filesys s) q = Some Dir" by (simp add: is_dir_def)
      moreover from category_dirs_parent [OF q] have "parent q \<noteq> ?D"
        using joinpath_ne [of ?D "''Organized''"] by simp
      ultimately show "is_dir (filesys s2) q" using a by (auto simp: is_dir_def)
    qed
  qed
  from a b c show ?thesis by blast
qed

text \<open>The state the cleanup pass leaves after the type-mode pass over \<^verbatim>\<open>/d\<close>.\<close>

definition after_clean :: state where
  "after_clean = \<lparr>filesys =
        [([''d''], Dir), ([''d'', ''Keep''], Dir),
         ([''d'', ''Keep'', ''k.txt''], File 6 ''k''),
         ([''d'', ''.DS_Store''], File 7 ''ds''),
         ([''d'', ''Organized''], Dir),
         ([''d'', ''Organized'', ''Images''], Dir),
         ([''d'', ''Organized'', ''Documents''], Dir),
         ([''d'', ''Organized'', ''Spreadsheets''], Dir),
         ([''d'', ''Organized'', ''Presentations''], Dir),
         ([''d'', ''Organized'', ''Videos''], Dir),
         ([''d'', ''Organized'', ''Audio''], Dir),
         ([''d'', ''Organized'', ''Archives''], Dir),
         ([''d'', ''Organized'', ''Code''], Dir),
         ([''d'', ''Organized'', ''Executables''], Dir),
         ([''d'', ''Organized'', ''Others''], Dir),
         ([''d'', ''Organized'', ''Images'', ''photo.JPG''], File 5 ''p''),
         ([''d'', ''Organized'', ''Others'', ''notes''], File 8 ''n'')],
        log =
          [(INFO, ''Moved photo.JPG to Images/''),
           (INFO, ''Moved notes to Others/''),
           (INFO, ''Successfully organized 2 files!''),
           (INFO, ''Removed empty folder: Old''),
           (INFO, ''Removed 1 empty folders!'')]\<rparr>"

lemma clean_run:
  "clean_empty_folders no_faults (FileOrganizer [''d'']) after_first = Inr after_clean"
  by code_simp

theorem clean_empty_folders_keeps_witness:
  "clean_empty_folders no_faults (FileOrganizer [''d'']) after_first = Inr after_clean
   \<and> map_of (filesys after_first) [''d'', ''Old''] = Some Dir
   \<and> map_of (filesys after_clean) [''d'', ''Old''] = None
   \<and> map_of (filesys after_clean) [''d'', ''Keep''] = Some Dir
   \<and> is_dir (filesys after_clean) [''d'', ''Organized'']
   \<and> is_dir (filesys after_clean) [''d'', ''Organized'', ''Videos'']
   \<and> entries (filesys after_clean) [''d'', ''Organized'', ''Videos''] = []"
proof -
  let ?self = "FileOrganizer [''d'']"
  have r: "clean_empty_folders no_faults ?self after_first = Inr after_clean
      \<or> clean_empty_folders no_faults ?self after_first = Inl (OSError [], after_clean)"
    by (simp add: clean_run)
  note T = clean_empty_folders_keeps [OF r]
  have keep: "map_of (filesys after_first) [''d'', ''Keep''] = Some Dir" by code_simp
  have keep_entries: "entries (filesys after_first) [''d'', ''Keep''] \<noteq> []" by code_simp
  from T [THEN conjunct1, rule_format, OF keep] keep_entries
  have a: "map_of (filesys after_clean) [''d'', ''Keep''] = Some Dir" by simp
  have h: "exists (filesys \<lparr>filesys = fs_demo, log = []\<rparr>) (source_dir ?self)
      \<and> organize_by_type no_faults ?self \<lparr>filesys = fs_demo, log = []\<rparr> = Inr after_first"
    using first_run by (simp add: exists_def fs_demo_def FileOrganizer_def)
  note F = T [THEN conjunct2, THEN conjunct2, rule_format, OF h]
  have sd: "source_dir ?self = [''d'']" by (simp add: FileOrganizer_def)
  from F have b: "is_dir (filesys after_clean) [''d'', ''Organized'']"
    by (simp add: sd joinpath_def)
  have mem: "[''d'', ''Organized'', ''Videos''] \<in> set (category_dirs ?self)" by code_simp
  from F mem have c: "is_dir (filesys after_clean) [''d'', ''Organized'', ''Videos'']" by blast
  have d: "map_of (filesys after_first) [''d'', ''Old''] = Some Dir" by code_simp
  have e: "map_of (filesys after_clean) [''d'', ''Old''] = None" by code_simp
  have f: "entries (filesys after_clean) [''d'', ''Organized'', ''Videos''] = []" by code_simp
  show ?thesis by (intro conjI clean_run a b c d e f)
qed

end
